theory Spec2Isabelle
  imports Main "HOL-Library.Word"
begin

chapter \<open>The program\<close>

section \<open>Persistence diagrams (PersistenceDiagram.hh)\<close>

text \<open>
  \<^verbatim>\<open>PersistenceDiagram<T>\<close> is a template over its data type \<open>T\<close>. The only facts about
  \<open>T\<close> the class reads are \<^verbatim>\<open>std::numeric_limits<T>::has_infinity\<close>, \<^verbatim>\<open>infinity()\<close> and
  \<^verbatim>\<open>max()\<close>; they are passed to the model as a record.
\<close>

record 'a numeric_limits =
  has_infinity :: bool
  infinity :: 'a
  max_value :: 'a

text \<open>The nested class \<^verbatim>\<open>Point\<close> with its private members \<^verbatim>\<open>_x\<close> and \<^verbatim>\<open>_y\<close>.\<close>

datatype 'a Point = Point (point_x: 'a) (point_y: 'a)

text \<open>
  \<^verbatim>\<open>explicit Point( DataType x )\<close>: \<^verbatim>\<open>_y\<close> starts as \<^verbatim>\<open>max()\<close> and is overwritten by
  \<^verbatim>\<open>infinity()\<close> when the type has one.
\<close>

definition Point_unpaired :: "'a numeric_limits \<Rightarrow> 'a \<Rightarrow> 'a Point" where
  "Point_unpaired lim x0 =
     (let y0 = max_value lim;
          y1 = (if has_infinity lim then infinity lim else y0)
      in Point x0 y1)"

text \<open>
  \<^verbatim>\<open>persistence()\<close> returns \<^verbatim>\<open>_y - _x\<close>, computed in the data type and converted back to it.
  The subtraction of the model is the subtraction of the type it is used at: at a machine
  integer of \<open>w\<close> bits, a word, it wraps around modulo \<open>2 ^ w\<close>, and \<open>unat\<close> or \<open>sint\<close>
  reads the result as the unsigned or the signed type does. Floating-point types are not
  modelled.
\<close>

definition persistence :: "('a::minus) Point \<Rightarrow> 'a" where
  "persistence p = point_y p - point_x p"

definition isUnpaired :: "'a numeric_limits \<Rightarrow> 'a Point \<Rightarrow> bool" where
  "isUnpaired lim p =
     ((has_infinity lim \<and> point_y p = infinity lim)
      \<or> (\<not> has_infinity lim \<and> point_y p = max_value lim))"

text \<open>
  The death value that marks an essential point, in the words of the specification:
  infinity when the data type has one, the largest value of the type otherwise.
\<close>

definition infinite_death :: "'a numeric_limits \<Rightarrow> 'a" where
  "infinite_death lim = (if has_infinity lim then infinity lim else max_value lim)"

text \<open>The diagram itself: \<^verbatim>\<open>_dimension\<close> (initially 0) and the vector \<^verbatim>\<open>_points\<close>.\<close>

record 'a PersistenceDiagram =
  pd_dimension :: nat
  pd_points :: "'a Point list"

definition empty_diagram :: "'a PersistenceDiagram" where
  "empty_diagram = \<lparr>pd_dimension = 0, pd_points = []\<rparr>"

text \<open>\<^verbatim>\<open>add( x )\<close> and \<^verbatim>\<open>add( x, y )\<close>: \<^verbatim>\<open>push_back\<close> of a new point, nothing is checked.\<close>

definition add_unpaired :: "'a numeric_limits \<Rightarrow> 'a \<Rightarrow> 'a PersistenceDiagram \<Rightarrow> 'a PersistenceDiagram" where
  "add_unpaired lim x0 D = D\<lparr>pd_points := pd_points D @ [Point_unpaired lim x0]\<rparr>"

definition add :: "'a \<Rightarrow> 'a \<Rightarrow> 'a PersistenceDiagram \<Rightarrow> 'a PersistenceDiagram" where
  "add x0 y0 D = D\<lparr>pd_points := pd_points D @ [Point x0 y0]\<rparr>"

text \<open>
  \<^verbatim>\<open>std::remove_if\<close> followed by \<^verbatim>\<open>erase\<close> up to the end: one pass from the front that
  keeps the elements the predicate rejects.
\<close>

primrec remove_if :: "('a \<Rightarrow> bool) \<Rightarrow> 'a list \<Rightarrow> 'a list" where
  "remove_if pr [] = []"
| "remove_if pr (a # as) = (if pr a then remove_if pr as else a # remove_if pr as)"

text \<open>\<^verbatim>\<open>std::count_if\<close>: one pass that counts the elements the predicate accepts.\<close>

primrec count_if :: "('a \<Rightarrow> bool) \<Rightarrow> 'a list \<Rightarrow> nat" where
  "count_if pr [] = 0"
| "count_if pr (a # as) = (if pr a then Suc (count_if pr as) else count_if pr as)"

definition removeDiagonal :: "'a PersistenceDiagram \<Rightarrow> 'a PersistenceDiagram" where
  "removeDiagonal D = D\<lparr>pd_points := remove_if (\<lambda>p. point_x p = point_y p) (pd_points D)\<rparr>"

definition removeUnpaired :: "'a numeric_limits \<Rightarrow> 'a PersistenceDiagram \<Rightarrow> 'a PersistenceDiagram" where
  "removeUnpaired lim D = D\<lparr>pd_points := remove_if (isUnpaired lim) (pd_points D)\<rparr>"

text \<open>
  \<^verbatim>\<open>merge( other )\<close> inserts the range of the other diagram's points at the end of
  \<^verbatim>\<open>_points\<close>. The argument is a const reference; the model takes it by value and returns
  the updated receiver only.
\<close>

definition merge :: "'a PersistenceDiagram \<Rightarrow> 'a PersistenceDiagram \<Rightarrow> 'a PersistenceDiagram" where
  "merge D other = D\<lparr>pd_points := pd_points D @ pd_points other\<rparr>"

definition setDimension :: "nat \<Rightarrow> 'a PersistenceDiagram \<Rightarrow> 'a PersistenceDiagram" where
  "setDimension d D = D\<lparr>pd_dimension := d\<rparr>"

definition dimension :: "'a PersistenceDiagram \<Rightarrow> nat" where
  "dimension D = pd_dimension D"

definition betti :: "'a numeric_limits \<Rightarrow> 'a PersistenceDiagram \<Rightarrow> nat" where
  "betti lim D = count_if (isUnpaired lim) (pd_points D)"

definition size_pd :: "'a PersistenceDiagram \<Rightarrow> nat" where
  "size_pd D = length (pd_points D)"

definition empty_pd :: "'a PersistenceDiagram \<Rightarrow> bool" where
  "empty_pd D = (pd_points D = [])"

text \<open>Limits of two instances: a type with an infinity and a type without.\<close>

definition limits_with_infinity :: "int option numeric_limits" where
  "limits_with_infinity = \<lparr>has_infinity = True, infinity = None, max_value = Some 1000\<rparr>"

definition limits_unsigned8 :: "nat numeric_limits" where
  "limits_unsigned8 = \<lparr>has_infinity = False, infinity = 0, max_value = 255\<rparr>"

section \<open>Boundary matrices (BoundaryMatrix.hh)\<close>

subsection \<open>The column store\<close>

text \<open>
  \<^verbatim>\<open>BoundaryMatrix<Representation>\<close> forwards every column operation to its
  \<^verbatim>\<open>Representation\<close>; the only representation the repository instantiates it with
  (\<^verbatim>\<open>Vector<unsigned>\<close>, header \<^verbatim>\<open>Vector.hh\<close>) is not among the sources. The column store
  below is therefore written from section 4.1 of the specification. A column is a list of
  row indices kept in ascending order without duplicates; indices are natural numbers.
\<close>

type_synonym Index = nat

type_synonym Representation = "Index list list"

text \<open>
  Modelled from the spec: the merge inside \<^verbatim>\<open>Vector::addColumns\<close> is missing. GF(2) addition
  of two columns is their symmetric difference, computed as one merge of two sorted
  sequences.
\<close>

fun set_symmetric_difference :: "Index list \<Rightarrow> Index list \<Rightarrow> Index list" where
  "set_symmetric_difference [] bs = bs"
| "set_symmetric_difference (a # as) [] = a # as"
| "set_symmetric_difference (a # as) (b # bs) =
     (if a < b then a # set_symmetric_difference as (b # bs)
      else if b < a then b # set_symmetric_difference (a # as) bs
      else set_symmetric_difference as bs)"

text \<open>
  Modelled from the spec: \<^verbatim>\<open>Vector::setNumColumns\<close> is missing. It (re)initialises the
  storage for exactly \<open>n\<close> empty columns.
\<close>

definition rep_setNumColumns :: "Index \<Rightarrow> Representation \<Rightarrow> Representation" where
  "rep_setNumColumns n rep = replicate n []"

definition rep_getNumColumns :: "Representation \<Rightarrow> Index" where
  "rep_getNumColumns rep = length rep"

text \<open>
  The fault of the core that section 7 of the specification names. In the column store it
  is raised by a pivot query for a column that the store does not have.
\<close>

datatype store_error = PreconditionError

text \<open>
  Modelled from the spec: \<^verbatim>\<open>Vector::getMaximumIndex\<close> is missing. It returns the pivot of
  column \<open>j\<close>, the maximum index of the column, and whether it exists. The query can
  raise a fault, and the question of the specification is whether an empty column does:
  the contract is about the columns of the store, so a column index beyond them is the
  fault, and a column without entries is answered with an absent pivot. The specification
  leaves the index component of an absent pivot open; the model returns 0 there.
\<close>

definition rep_getMaximumIndex :: "Representation \<Rightarrow> Index \<Rightarrow> store_error + Index \<times> bool" where
  "rep_getMaximumIndex rep j =
     (if \<not> j < length rep then Inl PreconditionError
      else if rep ! j = [] then Inr (0, False)
      else Inr (Max (set (rep ! j)), True))"

text \<open>
  Modelled from the spec: \<^verbatim>\<open>Vector::addColumns\<close> is missing. It sets
  \<open>column[target] := column[target] \<oplus> column[source]\<close>.
\<close>

definition rep_addColumns :: "Index \<Rightarrow> Index \<Rightarrow> Representation \<Rightarrow> Representation" where
  "rep_addColumns source target rep =
     rep[target := set_symmetric_difference (rep ! target) (rep ! source)]"

text \<open>
  Modelled from the spec: \<^verbatim>\<open>Vector::setColumn\<close> is missing. It replaces the contents of
  column \<open>j\<close> by the given indices, normalised to sorted order; the caller guarantees
  that they are unique.
\<close>

definition rep_setColumn :: "Index \<Rightarrow> Index list \<Rightarrow> Representation \<Rightarrow> Representation" where
  "rep_setColumn j indices rep = rep[j := sort indices]"

text \<open>Modelled from the spec: \<^verbatim>\<open>Vector::getColumn\<close> and \<^verbatim>\<open>Vector::clearColumn\<close> are missing.\<close>

definition rep_getColumn :: "Representation \<Rightarrow> Index \<Rightarrow> Index list" where
  "rep_getColumn rep j = rep ! j"

definition rep_clearColumn :: "Index \<Rightarrow> Representation \<Rightarrow> Representation" where
  "rep_clearColumn j rep = rep[j := []]"

text \<open>
  Modelled from the spec: \<^verbatim>\<open>Vector::getDimension\<close> is missing, in both forms. The dimension
  of column \<open>j\<close> is \<open>|column j| - 1\<close>, the dimension of the store is the maximum over all
  columns (0 when there is no column). Both are values of the index type of the code,
  which \<^verbatim>\<open>aleph_test.cc\<close> takes as \<^verbatim>\<open>unsigned\<close>. The row and column indices of the model are
  natural numbers, since no operation takes them out of the range of the matrix; the
  dimension is the result of a subtraction and is kept as the word of 32 bits that the
  code computes: for an empty column it wraps around to \<open>2 ^ 32 - 1\<close>.
\<close>

type_synonym Dimension = "32 word"

definition rep_getDimension_of :: "Representation \<Rightarrow> Index \<Rightarrow> Dimension" where
  "rep_getDimension_of rep j = of_nat (length (rep ! j)) - 1"

definition rep_getDimension :: "Representation \<Rightarrow> Dimension" where
  "rep_getDimension rep = fold (\<lambda>j d. max d (rep_getDimension_of rep j)) [0..<length rep] 0"

subsection \<open>The matrix class\<close>

text \<open>
  The class of \<^verbatim>\<open>BoundaryMatrix.hh\<close>: the representation and the flag \<^verbatim>\<open>_isDualized\<close>,
  which is false in a new matrix. Every member function but the two on the flag is one
  call of the representation.
\<close>

record BoundaryMatrix =
  representation :: Representation
  isDualized :: bool

definition new_matrix :: BoundaryMatrix where
  "new_matrix = \<lparr>representation = [], isDualized = False\<rparr>"

definition setNumColumns :: "Index \<Rightarrow> BoundaryMatrix \<Rightarrow> BoundaryMatrix" where
  "setNumColumns numColumns M = M\<lparr>representation := rep_setNumColumns numColumns (representation M)\<rparr>"

definition getNumColumns :: "BoundaryMatrix \<Rightarrow> Index" where
  "getNumColumns M = rep_getNumColumns (representation M)"

definition getMaximumIndex :: "BoundaryMatrix \<Rightarrow> Index \<Rightarrow> store_error + Index \<times> bool" where
  "getMaximumIndex M column = rep_getMaximumIndex (representation M) column"

definition addColumns :: "Index \<Rightarrow> Index \<Rightarrow> BoundaryMatrix \<Rightarrow> BoundaryMatrix" where
  "addColumns source target M = M\<lparr>representation := rep_addColumns source target (representation M)\<rparr>"

definition setColumn :: "Index \<Rightarrow> Index list \<Rightarrow> BoundaryMatrix \<Rightarrow> BoundaryMatrix" where
  "setColumn column indices M = M\<lparr>representation := rep_setColumn column indices (representation M)\<rparr>"

definition getColumn :: "BoundaryMatrix \<Rightarrow> Index \<Rightarrow> Index list" where
  "getColumn M column = rep_getColumn (representation M) column"

definition clearColumn :: "Index \<Rightarrow> BoundaryMatrix \<Rightarrow> BoundaryMatrix" where
  "clearColumn column M = M\<lparr>representation := rep_clearColumn column (representation M)\<rparr>"

definition getDimension_of :: "BoundaryMatrix \<Rightarrow> Index \<Rightarrow> Dimension" where
  "getDimension_of M column = rep_getDimension_of (representation M) column"

definition getDimension :: "BoundaryMatrix \<Rightarrow> Dimension" where
  "getDimension M = rep_getDimension (representation M)"

definition setDualized :: "bool \<Rightarrow> BoundaryMatrix \<Rightarrow> BoundaryMatrix" where
  "setDualized v M = M\<lparr>isDualized := v\<rparr>"

text \<open>A matrix with the given columns, built the way a client builds it.\<close>

definition matrix_of :: "Index list list \<Rightarrow> BoundaryMatrix" where
  "matrix_of cs =
     fold (\<lambda>j M. setColumn j (cs ! j) M) [0..<length cs] (setNumColumns (length cs) new_matrix)"

text \<open>
  The data model of the specification: every column is strictly ascending (sorted, no
  duplicates) and holds row indices of the matrix only.
\<close>

definition column_ok :: "nat \<Rightarrow> Index list \<Rightarrow> bool" where
  "column_ok n c = (sorted_wrt (<) c \<and> list_all (\<lambda>i. i < n) c)"

definition well_formed :: "BoundaryMatrix \<Rightarrow> bool" where
  "well_formed M = list_all (column_ok (getNumColumns M)) (representation M)"

subsection \<open>Text output\<close>

text \<open>
  What \<^verbatim>\<open>o << c\<close> writes for an unsigned index: its decimal digits, most significant
  first, no sign and no padding.
\<close>

definition digit_char :: "nat \<Rightarrow> char" where
  "digit_char d = ''0123456789'' ! d"

function show_index :: "nat \<Rightarrow> string" where
  "show_index n = (if n < 10 then [digit_char n] else show_index (n div 10) @ [digit_char (n mod 10)])"
  by pat_completeness auto
termination
  by (relation "measure id") auto

text \<open>
  \<^verbatim>\<open>operator<<\<close> for a matrix. The stream is the string written so far. The inner
  range-based loop writes every index of a non-empty column followed by one blank; an
  empty column is written as a minus sign; a newline ends the column.
\<close>

definition write_indices :: "Index list \<Rightarrow> string \<Rightarrow> string" where
  "write_indices column out = fold (\<lambda>c out'. out' @ show_index c @ '' '') column out"

function write_columns :: "BoundaryMatrix \<Rightarrow> Index \<Rightarrow> string \<Rightarrow> string" where
  "write_columns M j out =
     (if j < getNumColumns M then
        let column = getColumn M j;
            out1 = (if column \<noteq> [] then write_indices column out else out @ ''-'');
            out2 = out1 @ [CHR 0x0A]
        in write_columns M (j + 1) out2
      else out)"
  by pat_completeness auto
termination
  by (relation "measure (\<lambda>(M, j, out). getNumColumns M - j)") auto

definition write_matrix :: "string \<Rightarrow> BoundaryMatrix \<Rightarrow> string" where
  "write_matrix out M = write_columns M 0 out"

text \<open>
  The line of one column in the words of the specification: the indices separated by
  blanks, or a single minus sign for an empty column.
\<close>

fun separated_by_blanks :: "string list \<Rightarrow> string" where
  "separated_by_blanks [] = []"
| "separated_by_blanks [w] = w"
| "separated_by_blanks (w # ws) = w @ '' '' @ separated_by_blanks ws"

definition spec_line :: "Index list \<Rightarrow> string" where
  "spec_line column = (if column = [] then ''-'' else separated_by_blanks (map show_index column))"

definition spec_text :: "BoundaryMatrix \<Rightarrow> string" where
  "spec_text M = concat (map (\<lambda>j. spec_line (getColumn M j) @ [CHR 0x0A]) [0..<getNumColumns M])"

text \<open>The line of one column as the code writes it: every index is followed by a blank.\<close>

definition column_line :: "Index list \<Rightarrow> string" where
  "column_line column = (if column = [] then ''-'' else concat (map (\<lambda>c. show_index c @ '' '') column))"

declare write_columns.simps [simp del] show_index.simps [simp del]

section \<open>Dualisation\<close>

text \<open>
  Modelled from the spec: the dualisation function (\<^verbatim>\<open>dualizeTrivial\<close> of \<^verbatim>\<open>Dualization.hh\<close>)
  is missing. Section 4.4 of the specification: for a matrix of \<open>n\<close> columns the result
  has \<open>n\<close> columns, and entry \<open>r\<close> of column \<open>c\<close> of the input becomes entry \<open>n - 1 - c\<close>
  of column \<open>n - 1 - r\<close> of the output. So column \<open>c'\<close> of the output holds \<open>n - 1 - c\<close>
  for every input column \<open>c\<close> that holds \<open>n - 1 - c'\<close>. The columns are stored through
  \<open>setColumn\<close>, and the flag of the result is the flag of the input, toggled.
\<close>

definition dual_column :: "BoundaryMatrix \<Rightarrow> Index \<Rightarrow> Index list" where
  "dual_column M c' =
     (let n = getNumColumns M
      in map (\<lambda>c. n - 1 - c) (filter (\<lambda>c. n - 1 - c' \<in> set (getColumn M c)) [0..<n]))"

definition dualize :: "BoundaryMatrix \<Rightarrow> BoundaryMatrix" where
  "dualize M =
     (let n = getNumColumns M
      in fold (\<lambda>c' D. setColumn c' (dual_column M c') D) [0..<n]
           (setDualized (\<not> isDualized M) (setNumColumns n new_matrix)))"

section \<open>The reduction engine\<close>

text \<open>
  The two reduction strategies (\<^verbatim>\<open>Standard.hh\<close>, \<^verbatim>\<open>Twist.hh\<close>) and the function
  \<^verbatim>\<open>computePersistencePairs\<close> (\<^verbatim>\<open>PersistencePairs.hh\<close>) are not among the sources; only their
  calls in \<^verbatim>\<open>aleph_test.cc\<close> are. They are written from section 4.3 of the specification,
  on the matrix class above.
\<close>

type_synonym PersistencePair = "Index \<times> Index"

text \<open>
  Modelled from the spec: the inner loop of both strategies is missing. While the pivot
  of column \<open>j\<close> is present and already owned by a column \<open>k\<close>, perform
  \<open>addColumns(k, j)\<close> and recompute the pivot. A fault of the pivot query ends the loop
  with that fault. The loop need not end on a matrix and an ownership map that do not
  belong together, so the function is partial: \<open>None\<close> is a run that never returns.
\<close>

partial_function (option) reduce_column ::
  "(Index \<rightharpoonup> Index) \<Rightarrow> Index \<Rightarrow> BoundaryMatrix \<Rightarrow> (store_error + BoundaryMatrix) option" where
  "reduce_column lut j M =
     (case getMaximumIndex M j of
        Inl e \<Rightarrow> Some (Inl e)
      | Inr (i, valid) \<Rightarrow>
          (case (if valid then lut i else None) of
             None \<Rightarrow> Some (Inr M)
           | Some k \<Rightarrow> reduce_column lut j (addColumns k j M)))"

declare reduce_column.simps [code]

text \<open>
  A \<^verbatim>\<open>for\<close> loop over a range whose body may fail to return or raise a fault; a fault
  ends the loop.
\<close>

fun for_each :: "('a \<Rightarrow> 's \<Rightarrow> ('e + 's) option) \<Rightarrow> 'a list \<Rightarrow> 's \<Rightarrow> ('e + 's) option" where
  "for_each body [] s = Some (Inr s)"
| "for_each body (a # as) s =
     (case body a s of
        None \<Rightarrow> None
      | Some (Inl e) \<Rightarrow> Some (Inl e)
      | Some (Inr s') \<Rightarrow> for_each body as s')"

text \<open>
  Modelled from the spec: standard reduction is missing. The columns are visited in
  increasing order with a map from pivot index to the column that owns it. After the
  inner loop, a column that still has a pivot \<open>p\<close> registers \<open>p \<mapsto> j\<close> and emits
  the pair \<open>(p, j)\<close>; an empty column emits nothing. The result is the collection of
  pairs and the reduced matrix.
\<close>

definition standard_column ::
  "Index \<Rightarrow> BoundaryMatrix \<times> (Index \<rightharpoonup> Index) \<times> PersistencePair list
     \<Rightarrow> (store_error + BoundaryMatrix \<times> (Index \<rightharpoonup> Index) \<times> PersistencePair list) option" where
  "standard_column j s =
     (case s of (M, lut, pairs) \<Rightarrow>
        (case reduce_column lut j M of
           None \<Rightarrow> None
         | Some (Inl e) \<Rightarrow> Some (Inl e)
         | Some (Inr M') \<Rightarrow>
             (case getMaximumIndex M' j of
                Inl e \<Rightarrow> Some (Inl e)
              | Inr (p, valid) \<Rightarrow>
                  if valid then Some (Inr (M', lut(p \<mapsto> j), pairs @ [(p, j)]))
                  else Some (Inr (M', lut, pairs)))))"

definition standard_reduction ::
  "BoundaryMatrix \<Rightarrow> (store_error + PersistencePair list \<times> BoundaryMatrix) option" where
  "standard_reduction M =
     (case for_each standard_column [0..<getNumColumns M] (M, Map.empty, []) of
        None \<Rightarrow> None
      | Some (Inl e) \<Rightarrow> Some (Inl e)
      | Some (Inr (M', lut, pairs)) \<Rightarrow> Some (Inr (pairs, M')))"

text \<open>
  Modelled from the spec: twist reduction is missing. The columns are visited by
  decreasing simplex dimension, highest first, and within one dimension as in the
  standard algorithm. The moment a pair \<open>(p, j)\<close> is emitted, column \<open>p\<close> is cleared and
  flagged as resolved; a resolved column is skipped when the iteration reaches it. The
  dimension of a simplex is what \<open>getDimension\<close> gives for its column before the
  reduction starts, and the dimensions visited are those that occur.
\<close>

definition twist_column ::
  "Index \<Rightarrow> BoundaryMatrix \<times> (Index \<rightharpoonup> Index) \<times> Index set \<times> PersistencePair list
     \<Rightarrow> (store_error + BoundaryMatrix \<times> (Index \<rightharpoonup> Index) \<times> Index set \<times> PersistencePair list) option" where
  "twist_column j s =
     (case s of (M, lut, resolved, pairs) \<Rightarrow>
        if j \<in> resolved then Some (Inr s)
        else
          (case reduce_column lut j M of
             None \<Rightarrow> None
           | Some (Inl e) \<Rightarrow> Some (Inl e)
           | Some (Inr M') \<Rightarrow>
               (case getMaximumIndex M' j of
                  Inl e \<Rightarrow> Some (Inl e)
                | Inr (p, valid) \<Rightarrow>
                    if valid
                    then Some (Inr (clearColumn p M', lut(p \<mapsto> j), insert p resolved,
                                    pairs @ [(p, j)]))
                    else Some (Inr (M', lut, resolved, pairs)))))"

definition twist_band ::
  "Dimension list \<Rightarrow> Dimension
     \<Rightarrow> BoundaryMatrix \<times> (Index \<rightharpoonup> Index) \<times> Index set \<times> PersistencePair list
     \<Rightarrow> (store_error + BoundaryMatrix \<times> (Index \<rightharpoonup> Index) \<times> Index set \<times> PersistencePair list) option" where
  "twist_band dims d s =
     for_each (\<lambda>j s'. if dims ! j = d then twist_column j s' else Some (Inr s'))
       [0..<length dims] s"

definition twist_reduction ::
  "BoundaryMatrix \<Rightarrow> (store_error + PersistencePair list \<times> BoundaryMatrix) option" where
  "twist_reduction M =
     (let dims = map (getDimension_of M) [0..<getNumColumns M]
      in case for_each (twist_band dims) (rev (sort (remdups dims))) (M, Map.empty, {}, []) of
           None \<Rightarrow> None
         | Some (Inl e) \<Rightarrow> Some (Inl e)
         | Some (Inr (M', lut, resolved, pairs)) \<Rightarrow> Some (Inr (pairs, M')))"

text \<open>
  A valid boundary matrix in the words of the specification (sections 3, 6 and 7): a
  matrix of the data model in which every entry of column \<open>j\<close> is below \<open>j\<close>
  (triangularity).
\<close>

definition valid_boundary_matrix :: "BoundaryMatrix \<Rightarrow> bool" where
  "valid_boundary_matrix M =
     (well_formed M
      \<and> (\<forall>j\<in>set [0..<getNumColumns M]. \<forall>i\<in>set (getColumn M j). i < j))"

text \<open>
  The boundary matrix of a filtered complex has two more properties. The boundary of
  every boundary is zero: the columns named by a column add up to the empty column. And
  the dimensions read off the columns are consistent: two columns that share a row index
  have the same dimension.
\<close>

definition boundary_of_boundary :: "BoundaryMatrix \<Rightarrow> Index \<Rightarrow> Index list" where
  "boundary_of_boundary M j =
     fold (\<lambda>i acc. set_symmetric_difference acc (getColumn M i)) (getColumn M j) []"

definition complex_boundary_matrix :: "BoundaryMatrix \<Rightarrow> bool" where
  "complex_boundary_matrix M =
     (valid_boundary_matrix M
      \<and> (\<forall>j\<in>set [0..<getNumColumns M].
            boundary_of_boundary M j = []
            \<and> (\<forall>k\<in>set [0..<getNumColumns M].
                  (\<forall>i\<in>set (getColumn M j). i \<notin> set (getColumn M k))
                  \<or> getDimension_of M j = getDimension_of M k)))"

text \<open>
  The triangle of the specification: three vertices, three edges and the face, in this
  order.
\<close>

definition triangle :: BoundaryMatrix where
  "triangle = matrix_of [[], [], [], [0, 1], [0, 2], [1, 2], [3, 4, 5]]"

section \<open>The reader of bipartite adjacency matrices (BipartiteAdjacencyMatrix.hh)\<close>

text \<open>
  The two exceptions of the reader, both \<^verbatim>\<open>std::runtime_error\<close>: "Unable to read input
  file" and "Format error: number of columns must not vary".
\<close>

datatype reader_error = UnableToReadInputFile | FormatError

text \<open>The members of the reader: height and width of the last matrix, and two flags.\<close>

record BipartiteAdjacencyMatrixReader =
  reader_height :: nat
  reader_width :: nat
  assignMinimumAbsoluteVertexWeight :: bool
  assignMinimumVertexWeight :: bool

definition new_reader :: BipartiteAdjacencyMatrixReader where
  "new_reader = \<lparr>reader_height = 0, reader_width = 0,
     assignMinimumAbsoluteVertexWeight = False, assignMinimumVertexWeight = False\<rparr>"

text \<open>
  A simplex as the reader makes it: its vertices and its weight. The classes
  \<^verbatim>\<open>Simplex\<close> and \<^verbatim>\<open>SimplicialComplex\<close> and the filtration \<^verbatim>\<open>filtrations::Data\<close> are not
  among the sources: the construction of the complex from the range of simplices,
  followed by its sort, is the parameter \<open>mk\<close> of the reader. The vertex type is taken
  wide enough for every index of the matrix.
\<close>

datatype 'a Simplex = Simplex (vertices: "nat list") (data: 'a)

text \<open>
  The first pass over the stream: \<^verbatim>\<open>while( std::getline( in, line ) ) ++height\<close>. A call
  of \<^verbatim>\<open>getline\<close> succeeds unless the stream is at its end; it consumes the characters up to
  and including the next newline.
\<close>

function count_lines :: "string \<Rightarrow> nat" where
  "count_lines inp =
     (if inp = [] then 0
      else Suc (count_lines (drop 1 (dropWhile (\<lambda>c. c \<noteq> CHR 0x0A) inp))))"
  by pat_completeness auto
termination
proof (relation "measure length")
  fix inp :: string
  assume "inp \<noteq> []"
  then have "length (drop 1 (dropWhile (\<lambda>c. c \<noteq> CHR 0x0A) inp)) < length inp"
    using length_dropWhile_le [of "\<lambda>c. c \<noteq> CHR 0x0A" inp] by (cases inp) auto
  then show "(drop 1 (dropWhile (\<lambda>c. c \<noteq> CHR 0x0A) inp), inp) \<in> measure length"
    by simp
qed simp

text \<open>
  The second pass, from the same position: \<^verbatim>\<open>std::istream_iterator<DataType>\<close> extracts
  values until an extraction fails. The formatted extraction of one value of the data
  type is the parameter \<open>get_value\<close>: on success it gives the value and \<open>k\<close>, having
  consumed \<open>k + 1\<close> characters (whitespace included); at the end of the stream every
  extraction fails.
\<close>

function read_values :: "(string \<Rightarrow> ('a \<times> nat) option) \<Rightarrow> string \<Rightarrow> 'a list" where
  "read_values get_value inp =
     (if inp = [] then []
      else case get_value inp of
             None \<Rightarrow> []
           | Some (v, k) \<Rightarrow> v # read_values get_value (drop (Suc k) inp))"
  by pat_completeness auto
termination
  by (relation "measure (\<lambda>(get_value, inp). length inp)") auto

declare count_lines.simps [simp del] read_values.simps [simp del]

text \<open>The lambda \<^verbatim>\<open>updateOrSetWeight\<close> on the hash map \<^verbatim>\<open>minWeight\<close>.\<close>

definition updateOrSetWeight ::
  "BipartiteAdjacencyMatrixReader \<Rightarrow> nat \<Rightarrow> 'a \<Rightarrow> (nat \<rightharpoonup> 'a) \<Rightarrow> (nat \<rightharpoonup> ('a::{linorder,abs}))" where
  "updateOrSetWeight rd v w minWeight =
     (case minWeight v of
        None \<Rightarrow> minWeight(v \<mapsto> w)
      | Some w0 \<Rightarrow>
          if assignMinimumAbsoluteVertexWeight rd
          then (if \<bar>w\<bar> < \<bar>w0\<bar> then minWeight(v \<mapsto> w) else minWeight)
          else minWeight(v \<mapsto> min w0 w))"

text \<open>\<^verbatim>\<open>minWeight[v]\<close> read: a key that is missing reads as the default value of the data type.\<close>

definition lookup_or_default :: "(nat \<rightharpoonup> 'a) \<Rightarrow> nat \<Rightarrow> ('a::zero)" where
  "lookup_or_default m v = (case m v of None \<Rightarrow> 0 | Some w \<Rightarrow> w)"

text \<open>The loop nest over \<open>y\<close> and \<open>x\<close> that makes the edges, and the loop that makes the vertices.\<close>

definition make_edges ::
  "BipartiteAdjacencyMatrixReader \<Rightarrow> 'a list \<Rightarrow> (nat \<rightharpoonup> 'a) \<times> 'a Simplex list
     \<Rightarrow> (nat \<rightharpoonup> ('a::{linorder,abs})) \<times> 'a Simplex list" where
  "make_edges rd values start =
     fold (\<lambda>y. fold (\<lambda>x (minWeight, simplices).
                   let i = reader_width rd * y + x;
                       w = values ! i;
                       u = y;
                       v = x + reader_height rd
                   in (updateOrSetWeight rd v w (updateOrSetWeight rd u w minWeight),
                       simplices @ [Simplex [u, v] w]))
                [0..<reader_width rd])
          [0..<reader_height rd] start"

definition make_vertices ::
  "BipartiteAdjacencyMatrixReader \<Rightarrow> 'a \<Rightarrow> (nat \<rightharpoonup> 'a) \<Rightarrow> 'a Simplex list \<Rightarrow> ('a::zero) Simplex list" where
  "make_vertices rd minData minWeight simplices =
     fold (\<lambda>i ss. ss @ [Simplex [i]
                          (if assignMinimumVertexWeight rd \<or> assignMinimumAbsoluteVertexWeight rd
                           then lookup_or_default minWeight i else minData)])
          [0..<reader_height rd + reader_width rd] simplices"

text \<open>
  \<^verbatim>\<open>operator()( std::istream& in, SimplicialComplex& K )\<close>. The result is the exception
  thrown, if any, the reader and the complex \<open>K\<close> of the caller as the call leaves them.
  \<^verbatim>\<open>values.size() / height\<close> is evaluated only when a value was read, and then a line was
  read too.
\<close>

definition read_stream ::
  "(('a::{linorder,abs,zero}) Simplex list \<Rightarrow> 'k) \<Rightarrow> (string \<Rightarrow> ('a \<times> nat) option) \<Rightarrow>
     BipartiteAdjacencyMatrixReader \<Rightarrow> string \<Rightarrow> 'k
     \<Rightarrow> reader_error option \<times> BipartiteAdjacencyMatrixReader \<times> 'k" where
  "read_stream mk get_value rd inp K =
     (let height = count_lines inp;
          values = read_values get_value inp
      in if values = [] then (None, rd, K)
         else
           let rd1 = rd\<lparr>reader_height := height, reader_width := length values div height\<rparr>
           in if length values mod height \<noteq> 0 then (Some FormatError, rd1, K)
              else
                let minData = Min (set values);
                    (minWeight, edges) = make_edges rd1 values (Map.empty, []);
                    simplices = make_vertices rd1 minData minWeight edges
                in (None, rd1, mk simplices))"

text \<open>
  \<^verbatim>\<open>operator()( const std::string& filename, SimplicialComplex& K )\<close>: the file is its
  contents, or \<open>None\<close> when it cannot be opened.
\<close>

definition read_file ::
  "(('a::{linorder,abs,zero}) Simplex list \<Rightarrow> 'k) \<Rightarrow> (string \<Rightarrow> ('a \<times> nat) option) \<Rightarrow>
     BipartiteAdjacencyMatrixReader \<Rightarrow> string option \<Rightarrow> 'k
     \<Rightarrow> reader_error option \<times> BipartiteAdjacencyMatrixReader \<times> 'k" where
  "read_file mk get_value rd inp_file K =
     (case inp_file of
        None \<Rightarrow> (Some UnableToReadInputFile, rd, K)
      | Some inp \<Rightarrow> read_stream mk get_value rd inp K)"

text \<open>
  The extraction for the data type \<^verbatim>\<open>int\<close>, which the examples use: \<^verbatim>\<open>in >> value\<close> skips
  the whitespace, accepts one sign and reads the longest run of decimal digits. It fails
  when there is no digit, and when the number is not a value of 32 bits.
\<close>

definition is_space :: "char \<Rightarrow> bool" where
  "is_space c = (c \<in> set [CHR '' '', CHR 0x09, CHR 0x0A, CHR 0x0B, CHR 0x0C, CHR 0x0D])"

definition is_digit :: "char \<Rightarrow> bool" where
  "is_digit c = (c \<in> set ''0123456789'')"

definition digits_value :: "string \<Rightarrow> int" where
  "digits_value ds = foldl (\<lambda>acc c. 10 * acc + (of_char c - 48)) 0 ds"

definition extract_int :: "string \<Rightarrow> (int \<times> nat) option" where
  "extract_int inp =
     (let ws = takeWhile is_space inp;
          rest = dropWhile is_space inp;
          sign = takeWhile (\<lambda>c. c \<in> set ''+-'') (take 1 rest);
          ds = takeWhile is_digit (drop (length sign) rest);
          v = (if sign = ''-'' then - digits_value ds else digits_value ds)
      in if ds = [] \<or> v < - 2147483648 \<or> 2147483647 < v then None
         else Some (v, length ws + length sign + length ds - 1))"

section \<open>Notions for the proof about the two reductions\<close>

text \<open>
  A column is a set of row indices and the sum of the columns \<open>F w\<close> for \<open>w\<close> in a finite
  set \<open>W\<close> holds the indices that occur in an odd number of them.
\<close>

definition gsum :: "(nat \<Rightarrow> nat set) \<Rightarrow> nat set \<Rightarrow> nat set" where
  "gsum F W = {x. odd (card {w \<in> W. x \<in> F w})}"

text \<open>
  The inner loop as a relation on columns: \<open>reduces B c r\<close> when the column \<open>c\<close>
  reduces to \<open>r\<close> against the columns \<open>B\<close>, each stored under its pivot.
\<close>

inductive reduces :: "(Index \<rightharpoonup> Index list) \<Rightarrow> Index list \<Rightarrow> Index list \<Rightarrow> bool"
  for B :: "Index \<rightharpoonup> Index list" where
  reduces_empty: "reduces B [] []"
| reduces_free: "c \<noteq> [] \<Longrightarrow> B (Max (set c)) = None \<Longrightarrow> reduces B c c"
| reduces_step: "c \<noteq> [] \<Longrightarrow> B (Max (set c)) = Some b \<Longrightarrow>
                 reduces B (set_symmetric_difference c b) r \<Longrightarrow> reduces B c r"

text \<open>Columns stored under their pivots: each is sorted, not empty, and has the pivot of its key.\<close>

definition echelon :: "(Index \<rightharpoonup> Index list) \<Rightarrow> bool" where
  "echelon B = (\<forall>i b. B i = Some b \<longrightarrow> b \<noteq> [] \<and> sorted_wrt (<) b \<and> Max (set b) = i)"

text \<open>
  \<open>owners R K lut\<close>: the map \<open>lut\<close> sends a pivot to the column of \<open>K\<close> that has it in
  the matrix \<open>R\<close>. \<open>reduced_upto D R j\<close>: the columns of \<open>R\<close> below \<open>j\<close> are the columns of
  \<open>D\<close> reduced against the columns before them, the others are those of \<open>D\<close>.
\<close>

definition owners :: "Index list list \<Rightarrow> Index set \<Rightarrow> (Index \<rightharpoonup> Index) \<Rightarrow> bool" where
  "owners R K lut = (\<forall>i k. lut i = Some k \<longleftrightarrow> (k \<in> K \<and> R ! k \<noteq> [] \<and> Max (set (R ! k)) = i))"

text \<open>The columns that an ownership map names, under their pivots.\<close>

definition basis :: "Index list list \<Rightarrow> (Index \<rightharpoonup> Index) \<Rightarrow> (Index \<rightharpoonup> Index list)" where
  "basis R lut i = map_option (\<lambda>k. R ! k) (lut i)"

definition reduced_upto :: "Index list list \<Rightarrow> Index list list \<Rightarrow> nat \<Rightarrow> bool" where
  "reduced_upto D R j =
     (length R = length D
      \<and> (\<forall>k<length D. sorted_wrt (<) (R ! k))
      \<and> (\<forall>k. j \<le> k \<and> k < length D \<longrightarrow> R ! k = D ! k)
      \<and> (\<forall>k<j. \<exists>lut. owners R {..<k} lut \<and> reduces (basis R lut) (D ! k) (R ! k)))"

text \<open>The pairs that the non-empty columns of a reduced matrix stand for.\<close>

definition pairs_of :: "Index list list \<Rightarrow> Index list \<Rightarrow> PersistencePair list" where
  "pairs_of R ks = map (\<lambda>k. (Max (set (R ! k)), k)) (filter (\<lambda>k. R ! k \<noteq> []) ks)"

text \<open>The invariant of standard reduction before column \<open>j\<close> is visited.\<close>

definition standard_inv ::
  "Index list list \<Rightarrow> nat \<Rightarrow> BoundaryMatrix \<times> (Index \<rightharpoonup> Index) \<times> PersistencePair list \<Rightarrow> bool" where
  "standard_inv D j s =
     (case s of (M, lut, pairs) \<Rightarrow>
        reduced_upto D (representation M) j
        \<and> owners (representation M) {..<j} lut
        \<and> pairs = pairs_of (representation M) [0..<j])"

text \<open>
  The properties of the boundary matrix of a complex, on the list of columns: sorted
  columns, entries that are row indices, boundaries whose boundary is the empty sum, and
  equal dimension for columns that share a row index. \<open>band_rows D k\<close> are the row
  indices that occur in a column of the dimension of column \<open>k\<close>.
\<close>

definition columns_sorted :: "Index list list \<Rightarrow> bool" where
  "columns_sorted D = (\<forall>k<length D. sorted_wrt (<) (D ! k))"

definition entries_in_range :: "Index list list \<Rightarrow> bool" where
  "entries_in_range D = (\<forall>k<length D. \<forall>i\<in>set (D ! k). i < length D)"

definition boundary_zero :: "Index list list \<Rightarrow> bool" where
  "boundary_zero D = (\<forall>k<length D. gsum (\<lambda>i. set (D ! i)) (set (D ! k)) = {})"

definition dimension_consistent :: "Index list list \<Rightarrow> bool" where
  "dimension_consistent D =
     (\<forall>a<length D. \<forall>b<length D. set (D ! a) \<inter> set (D ! b) \<noteq> {}
          \<longrightarrow> rep_getDimension_of D a = rep_getDimension_of D b)"

definition band_rows :: "Index list list \<Rightarrow> nat \<Rightarrow> Index set" where
  "band_rows D k =
     (\<Union>b\<in>{b. b < length D \<and> rep_getDimension_of D b = rep_getDimension_of D k}. set (D ! b))"

text \<open>
  The invariant of the twist: of the columns \<open>K\<close> visited so far, those not cleared are
  the columns of the matrix \<open>R\<close> that standard reduction leaves; a cleared column is empty
  in \<open>R\<close> too.
\<close>

definition twist_inv ::
  "Index list list \<Rightarrow> Index list list \<Rightarrow> Index set
     \<Rightarrow> BoundaryMatrix \<times> (Index \<rightharpoonup> Index) \<times> Index set \<times> PersistencePair list \<Rightarrow> bool" where
  "twist_inv D R K s =
     (case s of (M, lut, resolved, pairs) \<Rightarrow>
        length (representation M) = length D
        \<and> (\<forall>k<length D. representation M ! k
               = (if k \<in> resolved then [] else if k \<in> K then R ! k else D ! k))
        \<and> (\<forall>k\<in>resolved. k < length D \<and> R ! k = [])
        \<and> owners R K lut
        \<and> set pairs = {(Max (set (R ! k)), k) | k. k \<in> K \<and> R ! k \<noteq> []})"

text \<open>The dimensions the twist reads off the columns before it starts.\<close>

definition column_dims :: "Index list list \<Rightarrow> Dimension list" where
  "column_dims D = map (rep_getDimension_of D) [0..<length D]"

chapter \<open>Properties\<close>

section \<open>Properties of persistence diagrams\<close>

subsection \<open>Facts about the two list passes\<close>

lemma remove_if_filter: "remove_if pr xs = filter (\<lambda>a. \<not> pr a) xs"
  by (induction xs) simp_all

lemma count_if_filter: "count_if pr xs = length (filter pr xs)"
  by (induction xs) simp_all

lemma count_if_zero: "count_if pr xs = 0 \<longleftrightarrow> (\<forall>a\<in>set xs. \<not> pr a)"
  by (induction xs) simp_all

lemma isUnpaired_infinite_death: "isUnpaired lim p \<longleftrightarrow> point_y p = infinite_death lim"
  by (cases "has_infinity lim") (simp_all add: isUnpaired_def infinite_death_def)

lemma Point_unpaired_isUnpaired: "isUnpaired lim (Point_unpaired lim x0)"
  by (simp add: isUnpaired_infinite_death Point_unpaired_def infinite_death_def)

subsection \<open>Betti number\<close>

text \<open>
  Claim C5. For every persistence diagram \<open>D\<close>, \<open>betti\<close> returns exactly the number of
  points of \<open>D\<close> whose death value is the infinite-death sentinel: infinity when the data
  type has one, the largest value of the type otherwise. A point made by the one-argument
  constructor is counted.
\<close>

theorem C5_betti_counts_infinite_death:
  "betti lim D = length (filter (\<lambda>p. point_y p = infinite_death lim) (pd_points D))
   \<and> betti lim (add_unpaired lim x0 D) = Suc (betti lim D)"
proof -
  have same: "isUnpaired lim = (\<lambda>p. point_y p = infinite_death lim)"
    by (rule ext) (rule isUnpaired_infinite_death)
  have pass: "\<And>ps. count_if (isUnpaired lim) ps
                 = length (filter (\<lambda>p. point_y p = infinite_death lim) ps)"
    by (simp add: count_if_filter same)
  have one: "point_y (Point_unpaired lim x0) = infinite_death lim"
    by (simp add: Point_unpaired_def infinite_death_def)
  show ?thesis
    by (simp add: betti_def add_unpaired_def pass one)
qed

theorem C5_betti_witness:
  "betti limits_unsigned8 (add 3 255 (add 1 4 (add_unpaired limits_unsigned8 0 empty_diagram))) = 2
   \<and> betti limits_with_infinity
        (add (Some 0) (Some 1000) (add_unpaired limits_with_infinity (Some 2) empty_diagram)) = 1"
  using C5_betti_counts_infinite_death
    [of limits_unsigned8 "add 3 255 (add 1 4 (add_unpaired limits_unsigned8 0 empty_diagram))" 0]
    C5_betti_counts_infinite_death
    [of limits_with_infinity
        "add (Some 0) (Some 1000) (add_unpaired limits_with_infinity (Some 2) empty_diagram)" None]
  by (simp add: add_def add_unpaired_def empty_diagram_def Point_unpaired_def
      infinite_death_def limits_unsigned8_def limits_with_infinity_def)

subsection \<open>Persistence of a point\<close>

text \<open>
  Claim C6 as the specification states it: every point of every diagram has persistence
  \<open>y - x\<close>, and that value is never negative, birth being at most death. The
  two-argument \<open>add\<close> stores whatever pair it is given: in a diagram over a signed type of
  32 bits, \<open>add 2 1\<close> stores a point of persistence \<open>-1\<close>. Birth at most death does not
  help either: over a signed type of 8 bits the point \<open>(-128, 127)\<close> has persistence
  \<open>-1\<close>, and over an unsigned type of 8 bits the point \<open>(2, 1)\<close> has persistence 255,
  which is not \<open>1 - 2\<close>.
\<close>

theorem C6_persistence_counterexample:
  "pd_points (add (2 :: 32 word) 1 empty_diagram) = [Point 2 1]
   \<and> sint (persistence (Point (2 :: 32 word) 1)) = - 1
   \<and> sint (- 128 :: 8 word) = - 128 \<and> sint (127 :: 8 word) = 127
   \<and> sint (persistence (Point (- 128 :: 8 word) 127)) = - 1
   \<and> unat (persistence (Point (2 :: 8 word) 1)) = 255"
  by code_simp

text \<open>
  Claim C6, amended. \<open>add x y\<close> appends exactly the point \<open>(x, y)\<close>, whatever the pair,
  and the persistence of a point is \<open>y - x\<close> computed in the data type. For an integer
  type of \<open>w\<close> bits this is \<open>y - x\<close> modulo \<open>2 ^ w\<close>: read as unsigned it is \<open>y - x\<close> when
  \<open>x \<le> y\<close> and \<open>y + 2 ^ w - x\<close> otherwise; read as signed it is \<open>y - x\<close> wrapped into
  the signed range, so it equals \<open>y - x\<close> and is not negative when \<open>x \<le> y\<close> and
  \<open>y - x < 2 ^ (w - 1)\<close>. (The wrapped value is what the conversion back to a type
  narrower than \<^verbatim>\<open>int\<close> gives; at \<^verbatim>\<open>int\<close> and wider types C++ leaves the overflow
  undefined.)
\<close>

theorem C6_persistence_amended:
  fixes p :: "'a::len word Point" and q :: "('b::minus) Point" and x0 y0 :: 'b
  shows "pd_points (add x0 y0 D) = pd_points D @ [Point x0 y0]
         \<and> persistence q = point_y q - point_x q
         \<and> unat (persistence p)
           = (if unat (point_x p) \<le> unat (point_y p) then unat (point_y p) - unat (point_x p)
              else unat (point_y p) + 2 ^ LENGTH('a) - unat (point_x p))
         \<and> sint (persistence p)
           = signed_take_bit (LENGTH('a) - 1) (sint (point_y p) - sint (point_x p))
         \<and> (sint (point_x p) \<le> sint (point_y p)
              \<and> sint (point_y p) - sint (point_x p) < 2 ^ (LENGTH('a) - 1)
            \<longrightarrow> sint (persistence p) = sint (point_y p) - sint (point_x p)
                \<and> 0 \<le> sint (persistence p))"
proof (intro conjI impI)
  show "pd_points (add x0 y0 D) = pd_points D @ [Point x0 y0]"
    by (simp add: add_def)
  show "persistence q = point_y q - point_x q"
    by (simp add: persistence_def)
  show "unat (persistence p)
           = (if unat (point_x p) \<le> unat (point_y p) then unat (point_y p) - unat (point_x p)
              else unat (point_y p) + 2 ^ LENGTH('a) - unat (point_x p))"
    by (simp add: persistence_def unat_sub_if_size word_size)
  show wrap: "sint (persistence p)
           = signed_take_bit (LENGTH('a) - 1) (sint (point_y p) - sint (point_x p))"
    by (simp add: persistence_def sint_word_diff)
  assume le: "sint (point_x p) \<le> sint (point_y p)
              \<and> sint (point_y p) - sint (point_x p) < 2 ^ (LENGTH('a) - 1)"
  then have "signed_take_bit (LENGTH('a) - 1) (sint (point_y p) - sint (point_x p))
               = sint (point_y p) - sint (point_x p)"
    by (intro signed_take_bit_int_eq_self) auto
  with wrap show "sint (persistence p) = sint (point_y p) - sint (point_x p)" by simp
  with le show "0 \<le> sint (persistence p)" by simp
qed

theorem C6_persistence_witness:
  "sint (3 :: 8 word) \<le> sint (100 :: 8 word)
   \<and> sint (100 :: 8 word) - sint (3 :: 8 word) < 2 ^ (LENGTH(8) - 1)
   \<and> sint (persistence (Point (3 :: 8 word) 100)) = 97
   \<and> unat (persistence (Point (3 :: 8 word) 100)) = 97
   \<and> unat (persistence (Point (100 :: 8 word) 3)) = 159
   \<and> pd_points (add (100 :: 8 word) 3 empty_diagram) = [Point 100 3]"
proof -
  have small: "sint (3 :: 8 word) \<le> sint (100 :: 8 word)
      \<and> sint (100 :: 8 word) - sint (3 :: 8 word) < 2 ^ (LENGTH(8) - 1)"
    by simp
  have left: "unat (persistence (Point (100 :: 8 word) 3)) = 159"
    by code_simp
  from C6_persistence_amended [of "100 :: 8 word" 3 empty_diagram "Point (3 :: 8 word) 100"
      "Point (3 :: 8 word) 100"] small
  have "pd_points (add (100 :: 8 word) 3 empty_diagram) = pd_points empty_diagram @ [Point 100 3]"
    and "sint (persistence (Point (3 :: 8 word) 100)) = sint (100 :: 8 word) - sint (3 :: 8 word)"
    and "unat (persistence (Point (3 :: 8 word) 100))
           = (if unat (3 :: 8 word) \<le> unat (100 :: 8 word) then unat (100 :: 8 word) - unat (3 :: 8 word)
              else unat (100 :: 8 word) + 2 ^ LENGTH(8) - unat (3 :: 8 word))"
    by simp_all
  then show ?thesis
    using small left by (simp add: empty_diagram_def)
qed

subsection \<open>Removing the unpaired points\<close>

text \<open>
  Claim C9. After \<open>removeUnpaired\<close> no remaining point is unpaired and the Betti number
  is 0; the remaining points are exactly the points that were not unpaired, in their
  original relative order, and the dimension attribute is untouched.
\<close>

theorem C9_removeUnpaired:
  "(\<forall>p \<in> set (pd_points (removeUnpaired lim D)). \<not> isUnpaired lim p)
   \<and> betti lim (removeUnpaired lim D) = 0
   \<and> pd_points (removeUnpaired lim D) = filter (\<lambda>p. \<not> isUnpaired lim p) (pd_points D)
   \<and> dimension (removeUnpaired lim D) = dimension D"
proof -
  have kept: "pd_points (removeUnpaired lim D) = filter (\<lambda>p. \<not> isUnpaired lim p) (pd_points D)"
    by (simp add: removeUnpaired_def remove_if_filter)
  have none: "\<forall>p \<in> set (pd_points (removeUnpaired lim D)). \<not> isUnpaired lim p"
    by (simp add: kept)
  have "betti lim (removeUnpaired lim D) = 0"
    unfolding betti_def using none by (simp only: count_if_zero)
  moreover have "dimension (removeUnpaired lim D) = dimension D"
    by (simp add: dimension_def removeUnpaired_def)
  ultimately show ?thesis
    using kept none by blast
qed

theorem C9_removeUnpaired_witness:
  "pd_points (removeUnpaired limits_unsigned8
      (add 3 255 (add 1 4 (add_unpaired limits_unsigned8 0 (add 2 2 empty_diagram)))))
     = [Point 2 2, Point 1 4]
   \<and> betti limits_unsigned8 (removeUnpaired limits_unsigned8
      (add 3 255 (add 1 4 (add_unpaired limits_unsigned8 0 (add 2 2 empty_diagram))))) = 0"
  using C9_removeUnpaired [of limits_unsigned8
      "add 3 255 (add 1 4 (add_unpaired limits_unsigned8 0 (add 2 2 empty_diagram)))"]
  by (simp add: add_def add_unpaired_def empty_diagram_def Point_unpaired_def
      isUnpaired_def limits_unsigned8_def)

subsection \<open>Merging two diagrams\<close>

text \<open>
  Claim C10. \<open>merge D E\<close> makes the point sequence of \<open>D\<close> its previous points followed
  by all points of \<open>E\<close>, duplicates retained, so the size becomes the sum of the two
  sizes; the dimension attribute of \<open>D\<close> is unchanged. \<open>E\<close> is read only: the function
  returns the receiver alone.
\<close>

theorem C10_merge:
  "pd_points (merge D E) = pd_points D @ pd_points E
   \<and> size_pd (merge D E) = size_pd D + size_pd E
   \<and> dimension (merge D E) = dimension D"
  by (simp add: merge_def size_pd_def dimension_def)

theorem C10_merge_witness:
  "pd_points (merge (setDimension 1 (add (1::int) 2 empty_diagram)) (add 1 2 (add 0 5 empty_diagram)))
     = [Point 1 2, Point 0 5, Point 1 2]
   \<and> dimension (merge (setDimension 1 (add (1::int) 2 empty_diagram)) (add 1 2 (add 0 5 empty_diagram))) = 1"
  using C10_merge [of "setDimension 1 (add (1::int) 2 empty_diagram)" "add 1 2 (add 0 5 empty_diagram)"]
  by (simp add: add_def setDimension_def empty_diagram_def dimension_def)

section \<open>Properties of the text output\<close>

lemma write_indices_eq:
  "write_indices column out = out @ concat (map (\<lambda>c. show_index c @ '' '') column)"
  unfolding write_indices_def
  by (induction column arbitrary: out) simp_all

lemma write_columns_eq:
  "write_columns M j out
     = out @ concat (map (\<lambda>k. column_line (getColumn M k) @ [CHR 0x0A]) [j..<getNumColumns M])"
proof (induction M j out rule: write_columns.induct)
  case (1 M j out)
  show ?case
  proof (cases "j < getNumColumns M")
    case True
    then have range: "[j..<getNumColumns M] = j # [j + 1..<getNumColumns M]"
      by (simp add: upt_conv_Cons)
    show ?thesis
      using True "1.IH" [OF True refl refl refl]
      apply (subst write_columns.simps)
      apply (simp add: range Let_def write_indices_eq column_line_def)
      done
  next
    case False
    then show ?thesis by (subst write_columns.simps) simp
  qed
qed

lemma digit_char_plain:
  assumes "d < 10"
  shows "digit_char d \<noteq> CHR 0x0A \<and> digit_char d \<noteq> CHR '' ''"
proof -
  from assms have "d \<in> {0, 1, 2, 3, 4, 5, 6, 7, 8, 9}" by auto
  then show ?thesis by (auto simp: digit_char_def)
qed

lemma show_index_chars: "c \<in> set (show_index n) \<Longrightarrow> c \<noteq> CHR 0x0A \<and> c \<noteq> CHR '' ''"
proof (induction n rule: show_index.induct)
  case (1 n)
  show ?case
  proof (cases "n < 10")
    case True
    with "1.prems" show ?thesis
      using digit_char_plain [of n] by (subst (asm) show_index.simps) simp
  next
    case False
    with "1.prems" have "c \<in> set (show_index (n div 10)) \<or> c = digit_char (n mod 10)"
      by (subst (asm) show_index.simps) auto
    then show ?thesis
      using "1.IH" [OF False] digit_char_plain [of "n mod 10"] by auto
  qed
qed

lemma column_line_no_newline: "CHR 0x0A \<notin> set (column_line column)"
  using show_index_chars by (auto simp: column_line_def)

lemma count_newlines:
  "count_list (concat (map (\<lambda>k. column_line (f k) @ [CHR 0x0A]) js)) (CHR 0x0A) = length js"
  using column_line_no_newline by (induction js) (simp_all add: count_list_0_iff)

text \<open>
  Claim C8 as the specification states it: the text of a matrix is one line per column,
  a non-empty column being its indices separated by blanks. For the matrix with the
  columns \<open>[]\<close> and \<open>[0, 1]\<close> that text is \<open>-\<close>, newline, \<open>0 1\<close>, newline; the code writes a
  blank after the last index as well.
\<close>

theorem C8_write_matrix_counterexample:
  "write_matrix [] (matrix_of [[], [0, 1]]) \<noteq> spec_text (matrix_of [[], [0, 1]])"
  by code_simp

text \<open>
  Claim C8, amended. The text of a matrix is one newline-terminated line per column, in
  column order, appended to what the stream already holds: a non-empty column is written
  as its indices in the order the column stores them, every index followed by one blank,
  and an empty column as a single minus sign. The text has as many newlines as the matrix
  has columns.
\<close>

theorem C8_write_matrix_amended:
  "write_matrix out M
     = out @ concat (map (\<lambda>j. column_line (getColumn M j) @ [CHR 0x0A]) [0..<getNumColumns M])
   \<and> count_list (write_matrix [] M) (CHR 0x0A) = getNumColumns M"
  by (simp add: write_matrix_def write_columns_eq count_newlines)

theorem C8_write_matrix_witness:
  "write_matrix [] (matrix_of [[], [], [0, 1]])
     = [CHR ''-'', CHR 0x0A, CHR ''-'', CHR 0x0A, CHR ''0'', CHR '' '', CHR ''1'', CHR '' '', CHR 0x0A]"
  using C8_write_matrix_amended [of "[]" "matrix_of [[], [], [0, 1]]"]
  by code_simp

section \<open>Properties of the column store\<close>

subsection \<open>Symmetric difference of sorted columns\<close>

lemma in_symdiff:
  "sorted_wrt (<) as \<Longrightarrow> sorted_wrt (<) bs \<Longrightarrow>
     x \<in> set (set_symmetric_difference as bs) \<longleftrightarrow> (x \<in> set as) \<noteq> (x \<in> set bs)"
proof (induction as bs rule: set_symmetric_difference.induct)
  case (1 bs)
  then show ?case by simp
next
  case (2 a as)
  then show ?case by simp
next
  case (3 a as b bs)
  from "3.prems" have sa: "sorted_wrt (<) as" and sb: "sorted_wrt (<) bs"
    and la: "\<forall>y\<in>set as. a < y" and lb: "\<forall>y\<in>set bs. b < y"
    by simp_all
  consider (lt) "a < b" | (gt) "b < a" | (eq) "a = b" by linarith
  then show ?case
  proof cases
    case lt
    have "x \<in> set (set_symmetric_difference as (b # bs)) \<longleftrightarrow> (x \<in> set as) \<noteq> (x \<in> set (b # bs))"
      using "3.IH"(1) [OF lt sa "3.prems"(2)] .
    moreover have "a \<notin> set (b # bs)" using lt lb by auto
    moreover have "a \<notin> set as" using la by auto
    ultimately show ?thesis using lt by auto
  next
    case gt
    then have ng: "\<not> a < b" by simp
    have "x \<in> set (set_symmetric_difference (a # as) bs) \<longleftrightarrow> (x \<in> set (a # as)) \<noteq> (x \<in> set bs)"
      using "3.IH"(2) [OF ng gt "3.prems"(1) sb] .
    moreover have "b \<notin> set (a # as)" using gt la by auto
    moreover have "b \<notin> set bs" using lb by auto
    ultimately show ?thesis using gt ng by auto
  next
    case eq
    then have ng: "\<not> a < b" "\<not> b < a" by simp_all
    have "x \<in> set (set_symmetric_difference as bs) \<longleftrightarrow> (x \<in> set as) \<noteq> (x \<in> set bs)"
      using "3.IH"(3) [OF ng sa sb] .
    moreover have "a \<notin> set as" using la by auto
    moreover have "b \<notin> set bs" using lb by auto
    ultimately show ?thesis using eq by auto
  qed
qed

lemma set_symdiff:
  "sorted_wrt (<) as \<Longrightarrow> sorted_wrt (<) bs \<Longrightarrow>
     set (set_symmetric_difference as bs) = sym_diff (set as) (set bs)"
  using in_symdiff by blast

lemma sorted_symdiff:
  "sorted_wrt (<) as \<Longrightarrow> sorted_wrt (<) bs \<Longrightarrow> sorted_wrt (<) (set_symmetric_difference as bs)"
proof (induction as bs rule: set_symmetric_difference.induct)
  case (1 bs)
  then show ?case by simp
next
  case (2 a as)
  then show ?case by simp
next
  case (3 a as b bs)
  from "3.prems" have sa: "sorted_wrt (<) as" and sb: "sorted_wrt (<) bs"
    and la: "\<forall>y\<in>set as. a < y" and lb: "\<forall>y\<in>set bs. b < y"
    by simp_all
  consider (lt) "a < b" | (gt) "b < a" | (eq) "a = b" by linarith
  then show ?case
  proof cases
    case lt
    have "sorted_wrt (<) (set_symmetric_difference as (b # bs))"
      using "3.IH"(1) [OF lt sa "3.prems"(2)] .
    moreover have "\<forall>y\<in>set (set_symmetric_difference as (b # bs)). a < y"
      using in_symdiff [OF sa "3.prems"(2)] la lb lt by fastforce
    ultimately show ?thesis using lt by simp
  next
    case gt
    then have ng: "\<not> a < b" by simp
    have "sorted_wrt (<) (set_symmetric_difference (a # as) bs)"
      using "3.IH"(2) [OF ng gt "3.prems"(1) sb] .
    moreover have "\<forall>y\<in>set (set_symmetric_difference (a # as) bs). b < y"
      using in_symdiff [OF "3.prems"(1) sb] la lb gt by fastforce
    ultimately show ?thesis using gt ng by simp
  next
    case eq
    then have ng: "\<not> a < b" "\<not> b < a" by simp_all
    show ?thesis using "3.IH"(3) [OF ng sa sb] eq by simp
  qed
qed

lemma strict_sorted_unique:
  "sorted_wrt (<) (as :: nat list) \<Longrightarrow> sorted_wrt (<) bs \<Longrightarrow> set as = set bs \<Longrightarrow> as = bs"
  by (simp add: strict_sorted_iff sorted_distinct_set_unique)

lemma symdiff_twice:
  assumes "sorted_wrt (<) as" "sorted_wrt (<) bs"
  shows "set_symmetric_difference (set_symmetric_difference as bs) bs = as"
proof (rule strict_sorted_unique)
  show "sorted_wrt (<) (set_symmetric_difference (set_symmetric_difference as bs) bs)"
    by (simp add: assms sorted_symdiff)
  show "sorted_wrt (<) as" by fact
  have "set (set_symmetric_difference (set_symmetric_difference as bs) bs)
          = sym_diff (sym_diff (set as) (set bs)) (set bs)"
    by (simp add: assms sorted_symdiff set_symdiff)
  also have "\<dots> = set as" by blast
  finally show "set (set_symmetric_difference (set_symmetric_difference as bs) bs) = set as" .
qed

lemma well_formed_entries:
  "well_formed M \<Longrightarrow> j < getNumColumns M \<Longrightarrow> r \<in> set (getColumn M j) \<Longrightarrow> r < getNumColumns M"
  by (auto simp add: well_formed_def getNumColumns_def rep_getNumColumns_def getColumn_def
      rep_getColumn_def list_all_length column_ok_def in_set_conv_nth)

lemma well_formed_column:
  "well_formed M \<Longrightarrow> j < getNumColumns M \<Longrightarrow> sorted_wrt (<) (getColumn M j)"
  by (simp add: well_formed_def getNumColumns_def rep_getNumColumns_def getColumn_def
      rep_getColumn_def list_all_length column_ok_def)

subsection \<open>Adding a column twice\<close>

text \<open>
  Claim C3 as the specification states it: for every pair of valid column indices,
  \<open>addColumns\<close> applied twice restores the target column. A column added to itself is
  empty and stays empty: with source and target both 1, column \<open>[0]\<close> is lost.
\<close>

theorem C3_addColumns_twice_counterexample:
  "well_formed (matrix_of [[], [0]])
   \<and> 1 < getNumColumns (matrix_of [[], [0]])
   \<and> getColumn (matrix_of [[], [0]]) 1 = [0]
   \<and> getColumn (addColumns 1 1 (addColumns 1 1 (matrix_of [[], [0]]))) 1 = []"
  by code_simp

text \<open>
  Claim C3, amended. For every matrix of the data model and every pair of valid column
  indices with source different from target, \<open>addColumns\<close> applied twice in succession
  restores the target column to its state before the first call.
\<close>

theorem C3_addColumns_twice_amended:
  assumes "well_formed M" "source < getNumColumns M" "target < getNumColumns M" "source \<noteq> target"
  shows "getColumn (addColumns source target (addColumns source target M)) target = getColumn M target"
proof -
  have s: "sorted_wrt (<) (getColumn M source)" and t: "sorted_wrt (<) (getColumn M target)"
    using assms well_formed_column by blast+
  show ?thesis
    using assms(2-4) symdiff_twice [OF t s]
    by (simp add: addColumns_def rep_addColumns_def getColumn_def rep_getColumn_def
        getNumColumns_def rep_getNumColumns_def)
qed

theorem C3_addColumns_twice_witness:
  "well_formed (matrix_of [[], [0], [0, 1]])
   \<and> getColumn (addColumns 1 2 (matrix_of [[], [0], [0, 1]])) 2 = [1]
   \<and> getColumn (addColumns 1 2 (addColumns 1 2 (matrix_of [[], [0], [0, 1]]))) 2 = [0, 1]"
  using C3_addColumns_twice_amended [of "matrix_of [[], [0], [0, 1]]" 1 2]
  by code_simp

subsection \<open>The pivot of an empty column\<close>

lemma symdiff_self: "set_symmetric_difference as as = []"
  by (induction as) simp_all

text \<open>
  Claim C4. The pivot query raises its fault for a column index that the matrix does not
  have, and for nothing else. For a column of the matrix that is empty it returns the
  ordinary value \<open>(0, False)\<close>, a pivot that is not present: whether the column was
  emptied by \<open>clearColumn\<close> just before, was made empty by \<open>setNumColumns\<close>, became
  empty because an equal column was added to it, or was empty for any other reason. For
  a column that is not empty the pivot is present and is the largest entry.
\<close>

theorem C4_getMaximumIndex_empty:
  "(getMaximumIndex M j = Inl PreconditionError \<longleftrightarrow> \<not> j < getNumColumns M)
   \<and> (j < getNumColumns M \<longrightarrow> getMaximumIndex (clearColumn j M) j = Inr (0, False))
   \<and> (j < n \<longrightarrow> getMaximumIndex (setNumColumns n M) j = Inr (0, False))
   \<and> (source < getNumColumns M \<and> j < getNumColumns M \<and> getColumn M source = getColumn M j
        \<longrightarrow> getMaximumIndex (addColumns source j M) j = Inr (0, False))
   \<and> (j < getNumColumns M \<and> getColumn M j = [] \<longrightarrow> getMaximumIndex M j = Inr (0, False))
   \<and> (j < getNumColumns M \<and> getColumn M j \<noteq> []
        \<longrightarrow> getMaximumIndex M j = Inr (Max (set (getColumn M j)), True))"
proof (intro conjI impI)
  show "getMaximumIndex M j = Inl PreconditionError \<longleftrightarrow> \<not> j < getNumColumns M"
    by (simp add: getMaximumIndex_def rep_getMaximumIndex_def getNumColumns_def
        rep_getNumColumns_def)
next
  assume "j < getNumColumns M"
  then show "getMaximumIndex (clearColumn j M) j = Inr (0, False)"
    by (simp add: getMaximumIndex_def rep_getMaximumIndex_def clearColumn_def
        rep_clearColumn_def getNumColumns_def rep_getNumColumns_def)
next
  assume "j < n"
  then show "getMaximumIndex (setNumColumns n M) j = Inr (0, False)"
    by (simp add: getMaximumIndex_def rep_getMaximumIndex_def setNumColumns_def
        rep_setNumColumns_def)
next
  assume "source < getNumColumns M \<and> j < getNumColumns M \<and> getColumn M source = getColumn M j"
  then have "j < length (representation M)"
    and "representation M ! source = representation M ! j"
    by (simp_all add: getNumColumns_def rep_getNumColumns_def getColumn_def rep_getColumn_def)
  then show "getMaximumIndex (addColumns source j M) j = Inr (0, False)"
    by (simp add: getMaximumIndex_def rep_getMaximumIndex_def addColumns_def rep_addColumns_def
        symdiff_self)
next
  assume "j < getNumColumns M \<and> getColumn M j = []"
  then show "getMaximumIndex M j = Inr (0, False)"
    by (simp add: getMaximumIndex_def rep_getMaximumIndex_def getNumColumns_def
        rep_getNumColumns_def getColumn_def rep_getColumn_def)
next
  assume "j < getNumColumns M \<and> getColumn M j \<noteq> []"
  then show "getMaximumIndex M j = Inr (Max (set (getColumn M j)), True)"
    by (simp add: getMaximumIndex_def rep_getMaximumIndex_def getNumColumns_def
        rep_getNumColumns_def getColumn_def rep_getColumn_def)
qed

theorem C4_getMaximumIndex_witness:
  "getMaximumIndex (matrix_of [[], [0], [0, 1], [0, 1]]) 2 = Inr (1, True)
   \<and> getMaximumIndex (clearColumn 2 (matrix_of [[], [0], [0, 1], [0, 1]])) 2 = Inr (0, False)
   \<and> getMaximumIndex (setNumColumns 4 (matrix_of [[], [0], [0, 1], [0, 1]])) 2 = Inr (0, False)
   \<and> getMaximumIndex (addColumns 3 2 (matrix_of [[], [0], [0, 1], [0, 1]])) 2 = Inr (0, False)
   \<and> getMaximumIndex (matrix_of [[], [0], [0, 1], [0, 1]]) 0 = Inr (0, False)
   \<and> getMaximumIndex (matrix_of [[], [0], [0, 1], [0, 1]]) 4 = Inl PreconditionError"
  using C4_getMaximumIndex_empty [of "matrix_of [[], [0], [0, 1], [0, 1]]" 2 4 3]
    C4_getMaximumIndex_empty [of "matrix_of [[], [0], [0, 1], [0, 1]]" 0 4 3]
    C4_getMaximumIndex_empty [of "matrix_of [[], [0], [0, 1], [0, 1]]" 4 4 3]
  by code_simp

section \<open>Properties of dualisation\<close>

lemma setColumn_fields:
  "representation (setColumn j xs D) = (representation D)[j := sort xs]"
  "isDualized (setColumn j xs D) = isDualized D"
  by (simp_all add: setColumn_def rep_setColumn_def)

lemma fold_setColumn_prefix:
  "k \<le> length (representation M0) \<Longrightarrow>
     representation (fold (\<lambda>j D. setColumn j (f j) D) [0..<k] M0)
       = map (\<lambda>j. sort (f j)) [0..<k] @ drop k (representation M0)
     \<and> isDualized (fold (\<lambda>j D. setColumn j (f j) D) [0..<k] M0) = isDualized M0"
proof (induction k)
  case 0
  then show ?case by simp
next
  case (Suc k)
  then have IH: "representation (fold (\<lambda>j D. setColumn j (f j) D) [0..<k] M0)
       = map (\<lambda>j. sort (f j)) [0..<k] @ drop k (representation M0)"
    and fl: "isDualized (fold (\<lambda>j D. setColumn j (f j) D) [0..<k] M0) = isDualized M0"
    and k: "k < length (representation M0)"
    by simp_all
  have "(map (\<lambda>j. sort (f j)) [0..<k] @ drop k (representation M0))[k := sort (f k)]
          = map (\<lambda>j. sort (f j)) [0..<k] @ (drop k (representation M0))[0 := sort (f k)]"
    by (simp add: list_update_append)
  also have "(drop k (representation M0))[0 := sort (f k)] = sort (f k) # drop (Suc k) (representation M0)"
    using k by (simp add: Cons_nth_drop_Suc [symmetric])
  finally show ?case
    using fl by (simp add: setColumn_fields IH)
qed

lemma representation_dualize:
  "representation (dualize M) = map (\<lambda>c'. sort (dual_column M c')) [0..<getNumColumns M]"
  "isDualized (dualize M) = (\<not> isDualized M)"
  "getNumColumns (dualize M) = getNumColumns M"
  using fold_setColumn_prefix [of "getNumColumns M"
      "setDualized (\<not> isDualized M) (setNumColumns (getNumColumns M) new_matrix)" "dual_column M"]
  by (simp_all add: dualize_def Let_def setDualized_def setNumColumns_def rep_setNumColumns_def
      getNumColumns_def rep_getNumColumns_def)

lemma set_dual_column:
  "set (dual_column M c') = {getNumColumns M - 1 - c | c. c < getNumColumns M \<and> getNumColumns M - 1 - c' \<in> set (getColumn M c)}"
  by (auto simp: dual_column_def Let_def)

lemma distinct_dual_column: "distinct (dual_column M c')"
proof -
  have "inj_on (\<lambda>c. getNumColumns M - 1 - c) {c. c < getNumColumns M}"
    by (rule inj_onI) auto
  then have "inj_on (\<lambda>c. getNumColumns M - 1 - c) (set (filter (\<lambda>c. getNumColumns M - 1 - c' \<in> set (getColumn M c)) [0..<getNumColumns M]))"
    by (rule inj_on_subset) auto
  then show ?thesis
    by (simp add: dual_column_def Let_def distinct_map)
qed

lemma sorted_dual_column: "sorted_wrt (<) (sort (dual_column M c'))"
  by (simp add: strict_sorted_iff distinct_dual_column)

lemma getColumn_dualize:
  "c' < getNumColumns M \<Longrightarrow> getColumn (dualize M) c' = sort (dual_column M c')"
  by (simp add: getColumn_def rep_getColumn_def representation_dualize)

lemma set_dual_dual:
  assumes wf: "well_formed M" and c: "c < getNumColumns M"
  shows "set (dual_column (dualize M) c) = set (getColumn M c)"
proof -
  let ?n = "getNumColumns M"
  have n: "getNumColumns (dualize M) = ?n" by (rule representation_dualize)
  have "set (dual_column (dualize M) c)
          = {?n - 1 - c' | c'. c' < ?n \<and> ?n - 1 - c \<in> set (getColumn (dualize M) c')}"
    by (simp only: set_dual_column n)
  also have "\<dots> = {?n - 1 - c' | c'. c' < ?n \<and> ?n - 1 - c \<in> set (dual_column M c')}"
  proof -
    have "c' < ?n \<Longrightarrow> set (getColumn (dualize M) c') = set (dual_column M c')" for c'
      by (simp add: getColumn_dualize)
    then show ?thesis by blast
  qed
  also have "\<dots> = {?n - 1 - c' | c'. c' < ?n \<and> ?n - 1 - c' \<in> set (getColumn M c)}"
  proof -
    have "?n - 1 - c \<in> set (dual_column M c') \<longleftrightarrow> ?n - 1 - c' \<in> set (getColumn M c)" for c'
    proof
      assume "?n - 1 - c \<in> set (dual_column M c')"
      then obtain d where d: "d < ?n" "?n - 1 - c = ?n - 1 - d" "?n - 1 - c' \<in> set (getColumn M d)"
        by (auto simp: set_dual_column)
      from d(1,2) c have "d = c" by arith
      with d(3) show "?n - 1 - c' \<in> set (getColumn M c)" by simp
    next
      assume "?n - 1 - c' \<in> set (getColumn M c)"
      with c show "?n - 1 - c \<in> set (dual_column M c')"
        by (auto simp: set_dual_column)
    qed
    then show ?thesis by simp
  qed
  also have "\<dots> = set (getColumn M c)"
  proof (rule set_eqI)
    fix r
    show "r \<in> {?n - 1 - c' | c'. c' < ?n \<and> ?n - 1 - c' \<in> set (getColumn M c)} \<longleftrightarrow> r \<in> set (getColumn M c)"
    proof
      assume "r \<in> {?n - 1 - c' | c'. c' < ?n \<and> ?n - 1 - c' \<in> set (getColumn M c)}"
      then show "r \<in> set (getColumn M c)" by auto
    next
      assume r: "r \<in> set (getColumn M c)"
      then have "r < ?n" using well_formed_entries [OF wf c] by blast
      then have "?n - 1 - r < ?n" "?n - 1 - (?n - 1 - r) = r" by arith+
      with r show "r \<in> {?n - 1 - c' | c'. c' < ?n \<and> ?n - 1 - c' \<in> set (getColumn M c)}"
        by (intro CollectI exI [of _ "?n - 1 - r"]) simp
    qed
  qed
  finally show ?thesis .
qed

text \<open>
  Claim C2. For every matrix of the data model, dualising twice reproduces the column
  contents exactly, and the dualised flag of the result is the flag of the original
  matrix: each dualisation toggles it.
\<close>

theorem C2_dualize_involution:
  assumes "well_formed M"
  shows "representation (dualize (dualize M)) = representation M
         \<and> isDualized (dualize (dualize M)) = isDualized M
         \<and> isDualized (dualize M) = (\<not> isDualized M)"
proof -
  let ?n = "getNumColumns M"
  have n: "getNumColumns (dualize M) = ?n" by (rule representation_dualize)
  have len: "length (representation M) = ?n"
    by (simp add: getNumColumns_def rep_getNumColumns_def)
  have "representation (dualize (dualize M)) = representation M"
  proof (rule nth_equalityI)
    show "length (representation (dualize (dualize M))) = length (representation M)"
      by (simp add: representation_dualize n len)
  next
    fix c assume "c < length (representation (dualize (dualize M)))"
    then have c: "c < ?n" by (simp add: representation_dualize n)
    have "sort (dual_column (dualize M) c) = getColumn M c"
    proof (rule strict_sorted_unique)
      show "sorted_wrt (<) (sort (dual_column (dualize M) c))" by (rule sorted_dual_column)
      show "sorted_wrt (<) (getColumn M c)" using assms c by (rule well_formed_column)
      show "set (sort (dual_column (dualize M) c)) = set (getColumn M c)"
        using set_dual_dual [OF assms c] by simp
    qed
    then show "representation (dualize (dualize M)) ! c = representation M ! c"
      using c by (simp add: representation_dualize n getColumn_def rep_getColumn_def)
  qed
  then show ?thesis by (simp add: representation_dualize)
qed

theorem C2_dualize_witness:
  "well_formed (matrix_of [[], [], [], [0, 1], [0, 2], [1, 2], [3, 4, 5]])
   \<and> representation (dualize (matrix_of [[], [], [], [0, 1], [0, 2], [1, 2], [3, 4, 5]]))
       = [[], [0], [0], [0], [1, 2], [1, 3], [2, 3]]
   \<and> representation (dualize (dualize (matrix_of [[], [], [], [0, 1], [0, 2], [1, 2], [3, 4, 5]])))
       = [[], [], [], [0, 1], [0, 2], [1, 2], [3, 4, 5]]
   \<and> \<not> isDualized (dualize (dualize (matrix_of [[], [], [], [0, 1], [0, 2], [1, 2], [3, 4, 5]])))"
  using C2_dualize_involution [of "matrix_of [[], [], [], [0, 1], [0, 2], [1, 2], [3, 4, 5]]"]
  by code_simp

section \<open>Standard and twist reduction compute the same pairs\<close>

subsection \<open>Sums of columns over GF(2)\<close>

lemma odd_card_sym_diff:
  assumes "finite A" "finite B"
  shows "odd (card (sym_diff A B)) \<longleftrightarrow> (odd (card A) \<noteq> odd (card B))"
proof -
  have disj: "(A - B) \<inter> (B - A) = {}" by blast
  have "card (sym_diff A B) = card (A - B) + card (B - A)"
    using assms disj by (simp add: card_Un_disjoint)
  moreover have "card A = card (A - B) + card (A \<inter> B)"
    using assms by (metis Diff_Diff_Int Diff_disjoint Un_Diff_Int card_Un_disjoint finite_Diff finite_Int inf_commute)
  moreover have "card B = card (B - A) + card (A \<inter> B)"
    using assms by (metis Diff_Diff_Int Diff_disjoint Un_Diff_Int card_Un_disjoint finite_Diff finite_Int inf_commute)
  ultimately show ?thesis by presburger
qed

lemma gsum_empty [simp]: "gsum F {} = {}"
  by (simp add: gsum_def)

lemma gsum_sym_diff:
  assumes "finite W" "finite W'"
  shows "gsum F (sym_diff W W') = sym_diff (gsum F W) (gsum F W')"
proof (rule set_eqI)
  fix x
  have split: "{w \<in> sym_diff W W'. x \<in> F w} = sym_diff {w \<in> W. x \<in> F w} {w \<in> W'. x \<in> F w}"
    by blast
  have "odd (card {w \<in> sym_diff W W'. x \<in> F w})
          \<longleftrightarrow> (odd (card {w \<in> W. x \<in> F w}) \<noteq> odd (card {w \<in> W'. x \<in> F w}))"
    unfolding split using assms by (intro odd_card_sym_diff) simp_all
  then show "x \<in> gsum F (sym_diff W W') \<longleftrightarrow> x \<in> sym_diff (gsum F W) (gsum F W')"
    by (auto simp: gsum_def)
qed

lemma gsum_single [simp]: "gsum F {w} = F w"
proof (rule set_eqI)
  fix x
  have "{v \<in> {w}. x \<in> F v} = (if x \<in> F w then {w} else {})" by auto
  then show "x \<in> gsum F {w} \<longleftrightarrow> x \<in> F w" by (simp add: gsum_def)
qed

lemma gsum_insert:
  assumes "finite W" "w \<notin> W"
  shows "gsum F (insert w W) = sym_diff (F w) (gsum F W)"
proof -
  have "insert w W = sym_diff {w} W" using assms by blast
  then show ?thesis using gsum_sym_diff [of "{w}" W F] assms by simp
qed

lemma gsum_cong: "(\<And>w. w \<in> W \<Longrightarrow> F w = G w) \<Longrightarrow> gsum F W = gsum G W"
proof -
  assume eq: "\<And>w. w \<in> W \<Longrightarrow> F w = G w"
  have "{w \<in> W. x \<in> F w} = {w \<in> W. x \<in> G w}" for x using eq by blast
  then show ?thesis by (simp add: gsum_def)
qed

lemma gsum_drop_empty: "gsum F {w \<in> W. F w \<noteq> {}} = gsum F W"
proof -
  have "{v \<in> {w \<in> W. F w \<noteq> {}}. x \<in> F v} = {w \<in> W. x \<in> F w}" for x by blast
  then show ?thesis by (simp add: gsum_def)
qed

lemma gsum_subset: "gsum F W \<subseteq> (\<Union>w\<in>W. F w)"
proof
  fix x assume "x \<in> gsum F W"
  then have "odd (card {w \<in> W. x \<in> F w})" by (simp add: gsum_def)
  then have "{w \<in> W. x \<in> F w} \<noteq> {}" by (intro notI) simp
  then show "x \<in> (\<Union>w\<in>W. F w)" by blast
qed

text \<open>
  Columns with pairwise different pivots are independent: a sum of at least one of them
  is not empty, and its pivot is the pivot of one of them.
\<close>

lemma gsum_echelon:
  assumes fin: "finite W" and ne: "W \<noteq> {}"
    and cols: "\<And>w. w \<in> W \<Longrightarrow> finite (F w) \<and> F w \<noteq> {}"
    and inj: "inj_on (\<lambda>w. Max (F w)) W"
  shows "gsum F W \<noteq> {} \<and> Max (gsum F W) \<in> (\<lambda>w. Max (F w)) ` W"
proof -
  let ?piv = "\<lambda>w. Max (F w)"
  let ?m = "Max (?piv ` W)"
  have "?m \<in> ?piv ` W" using fin ne by (intro Max_in) simp_all
  then obtain w0 where w0: "w0 \<in> W" "?piv w0 = ?m" by auto
  have top: "?piv w \<le> ?m" if "w \<in> W" for w using fin that by simp
  have m_in: "?m \<in> F w0" using cols [OF w0(1)] w0(2) Max_in by metis
  have only: "{w \<in> W. ?m \<in> F w} = {w0}"
  proof -
    have "w = w0" if "w \<in> W" "?m \<in> F w" for w
    proof -
      have "?m \<le> ?piv w" using cols [OF that(1)] that(2) by simp
      with top [OF that(1)] have "?piv w = ?piv w0" using w0(2) by simp
      with inj that(1) w0(1) show ?thesis by (auto dest: inj_onD)
    qed
    with w0(1) m_in show ?thesis by blast
  qed
  have mem: "?m \<in> gsum F W" by (simp add: gsum_def only)
  have fin_sum: "finite (gsum F W)"
    using gsum_subset [of F W] fin cols by (meson finite_UN_I finite_subset)
  have le: "x \<le> ?m" if "x \<in> gsum F W" for x
  proof -
    from that gsum_subset obtain w where w: "w \<in> W" "x \<in> F w" by blast
    then have "x \<le> ?piv w" using cols [OF w(1)] by simp
    with top [OF w(1)] show ?thesis by simp
  qed
  have "Max (gsum F W) = ?m"
    using fin_sum mem le by (intro Max_eqI) auto
  with mem \<open>?m \<in> ?piv ` W\<close> show ?thesis by auto
qed

lemma sym_diff_cancel: "sym_diff (sym_diff A B) (sym_diff B G) = sym_diff A G"
proof (rule set_eqI)
  fix x
  show "x \<in> sym_diff (sym_diff A B) (sym_diff B G) \<longleftrightarrow> x \<in> sym_diff A G"
    by (cases "x \<in> A"; cases "x \<in> B"; cases "x \<in> G") simp_all
qed

lemma sym_diff_empty: "sym_diff A B = {} \<Longrightarrow> A = B"
  by blast

lemma sym_diff_swap: "A = sym_diff B G \<Longrightarrow> B = sym_diff A G"
proof (rule set_eqI)
  fix x assume "A = sym_diff B G"
  then have "x \<in> A \<longleftrightarrow> x \<in> sym_diff B G" by simp
  then show "x \<in> B \<longleftrightarrow> x \<in> sym_diff A G"
    by (cases "x \<in> A"; cases "x \<in> B"; cases "x \<in> G") simp_all
qed

lemma sym_diff_assoc: "sym_diff (sym_diff A B) G = sym_diff A (sym_diff B G)"
proof (rule set_eqI)
  fix x
  show "x \<in> sym_diff (sym_diff A B) G \<longleftrightarrow> x \<in> sym_diff A (sym_diff B G)"
    by (cases "x \<in> A"; cases "x \<in> B"; cases "x \<in> G") simp_all
qed

lemma set_symdiff_subset: "set (set_symmetric_difference as bs) \<subseteq> set as \<union> set bs"
  by (induction as bs rule: set_symmetric_difference.induct) auto

subsection \<open>The reduction of one column\<close>

lemma getMaximumIndex_simps:
  "j < length (representation M) \<Longrightarrow>
   getMaximumIndex M j =
     Inr (if representation M ! j = [] then (0, False)
          else (Max (set (representation M ! j)), True))"
  by (simp add: getMaximumIndex_def rep_getMaximumIndex_def)

lemma representation_addColumns:
  "representation (addColumns k j M)
     = (representation M)[j := set_symmetric_difference (representation M ! j) (representation M ! k)]"
  by (simp add: addColumns_def rep_addColumns_def)

lemma reduce_column_reduces:
  assumes "reduces B c r"
  shows "j < length (representation M) \<Longrightarrow> representation M ! j = c \<Longrightarrow>
         (\<forall>i. B i = map_option (\<lambda>k. representation M ! k) (lut i)) \<Longrightarrow>
         (\<forall>i. lut i \<noteq> Some j) \<Longrightarrow>
         reduce_column lut j M = Some (Inr (M\<lparr>representation := (representation M)[j := r]\<rparr>))"
  using assms
proof (induction arbitrary: M rule: reduces.induct)
  case reduces_empty
  then show ?case
    by (subst reduce_column.simps) (simp add: getMaximumIndex_simps list_update_same_conv [THEN iffD2])
next
  case (reduces_free c)
  then have "lut (Max (set c)) = None" by simp
  with reduces_free show ?case
    by (subst reduce_column.simps) (simp add: getMaximumIndex_simps list_update_same_conv [THEN iffD2])
next
  case (reduces_step c b r)
  from reduces_step.hyps(2) reduces_step.prems(3)
  obtain k where k: "lut (Max (set c)) = Some k" "b = representation M ! k"
    by auto
  have kj: "k \<noteq> j" using k(1) reduces_step.prems(4) by auto
  let ?M = "addColumns k j M"
  have rep: "representation ?M = (representation M)[j := set_symmetric_difference c b]"
    using k(2) reduces_step.prems(2) by (simp add: representation_addColumns)
  have other: "representation ?M ! k' = representation M ! k'" if "k' \<noteq> j" for k'
    using that by (simp add: rep)
  have "reduce_column lut j ?M = Some (Inr (?M\<lparr>representation := (representation ?M)[j := r]\<rparr>))"
  proof (rule reduces_step.IH)
    show "j < length (representation ?M)" using reduces_step.prems(1) by (simp add: rep)
    show "representation ?M ! j = set_symmetric_difference c b"
      using reduces_step.prems(1) by (simp add: rep)
    show "\<forall>i. B i = map_option (\<lambda>k. representation ?M ! k) (lut i)"
    proof
      fix i
      show "B i = map_option (\<lambda>k. representation ?M ! k) (lut i)"
      proof (cases "lut i")
        case None
        then show ?thesis using reduces_step.prems(3) by simp
      next
        case (Some k')
        then have "k' \<noteq> j" using reduces_step.prems(4) by auto
        then show ?thesis using Some reduces_step.prems(3) other by simp
      qed
    qed
    show "\<forall>i. lut i \<noteq> Some j" by fact
  qed
  moreover have "?M\<lparr>representation := (representation ?M)[j := r]\<rparr>
                   = M\<lparr>representation := (representation M)[j := r]\<rparr>"
    by (simp add: addColumns_def rep_addColumns_def)
  ultimately show ?case
    using k(1) reduces_step.hyps(1) reduces_step.prems(1,2)
    by (subst reduce_column.simps) (simp add: getMaximumIndex_simps)
qed

lemma reduces_invariant:
  assumes "reduces B c r" and "P c"
    and "\<And>c' b. P c' \<Longrightarrow> c' \<noteq> [] \<Longrightarrow> B (Max (set c')) = Some b \<Longrightarrow> P (set_symmetric_difference c' b)"
  shows "P r"
  using assms by (induction rule: reduces.induct) auto

lemma reduces_final:
  assumes "reduces B c r"
  shows "r = [] \<or> B (Max (set r)) = None"
  using assms by (induction rule: reduces.induct) auto

lemma reduces_agree:
  assumes "reduces B c r" and "P c"
    and "\<And>c' b. P c' \<Longrightarrow> c' \<noteq> [] \<Longrightarrow> B (Max (set c')) = Some b \<Longrightarrow> P (set_symmetric_difference c' b)"
    and "\<And>c'. P c' \<Longrightarrow> c' \<noteq> [] \<Longrightarrow> B' (Max (set c')) = B (Max (set c'))"
  shows "reduces B' c r"
  using assms
proof (induction rule: reduces.induct)
  case reduces_empty
  then show ?case by (simp add: reduces.reduces_empty)
next
  case (reduces_free c)
  then show ?case by (simp add: reduces.reduces_free)
next
  case (reduces_step c b r)
  have "B' (Max (set c)) = Some b"
    using reduces_step.prems(3) [OF reduces_step.prems(1) reduces_step.hyps(1)] reduces_step.hyps(2)
    by simp
  moreover have "reduces B' (set_symmetric_difference c b) r"
    using reduces_step.prems reduces_step.hyps by (intro reduces_step.IH) blast+
  ultimately show ?case
    using reduces_step.hyps(1) by (rule_tac reduces.reduces_step)
qed

lemma symdiff_smaller:
  assumes c: "sorted_wrt (<) c" "c \<noteq> []" and b: "sorted_wrt (<) b" "b \<noteq> []"
    and same: "Max (set b) = Max (set c)"
  shows "set_symmetric_difference c b = [] \<or> Max (set (set_symmetric_difference c b)) < Max (set c)"
proof (cases "set_symmetric_difference c b = []")
  case True
  then show ?thesis by simp
next
  case False
  let ?d = "set_symmetric_difference c b"
  have set_d: "set ?d = sym_diff (set c) (set b)" using c(1) b(1) by (rule set_symdiff)
  have mc: "Max (set c) \<in> set c" using c(2) by simp
  have mb: "Max (set c) \<in> set b" using b(2) same Max_in [of "set b"] by simp
  have "x < Max (set c)" if "x \<in> set ?d" for x
  proof -
    from that set_d have "x \<in> set c \<or> x \<in> set b" by blast
    then have "x \<le> Max (set c)" using same Max_ge [of "set b" x] Max_ge [of "set c" x] by auto
    moreover have "x \<noteq> Max (set c)" using that set_d mc mb by blast
    ultimately show ?thesis by simp
  qed
  moreover have "Max (set ?d) \<in> set ?d" using False by simp
  ultimately show ?thesis by blast
qed

lemma reduces_exists:
  assumes "echelon B" "sorted_wrt (<) c"
  shows "\<exists>r. reduces B c r"
  using assms(2)
proof (induction "if c = [] then 0 else Suc (Max (set c))" arbitrary: c rule: less_induct)
  case less
  show ?case
  proof (cases "c = []")
    case True
    then show ?thesis using reduces_empty by blast
  next
    case False
    show ?thesis
    proof (cases "B (Max (set c))")
      case None
      then show ?thesis using False reduces_free by blast
    next
      case (Some b)
      then have b: "b \<noteq> []" "sorted_wrt (<) b" "Max (set b) = Max (set c)"
        using assms(1) by (auto simp: echelon_def)
      let ?d = "set_symmetric_difference c b"
      have sd: "sorted_wrt (<) ?d" using less.prems b(2) by (rule sorted_symdiff)
      have "?d = [] \<or> Max (set ?d) < Max (set c)"
        using less.prems False b by (intro symdiff_smaller)
      then have "(if ?d = [] then 0 else Suc (Max (set ?d))) < (if c = [] then 0 else Suc (Max (set c)))"
        using False by auto
      from less.hyps [OF this sd] obtain r where "reduces B ?d r" by blast
      then show ?thesis using False Some reduces_step by blast
    qed
  qed
qed

lemma reduces_sorted:
  assumes "reduces B c r" "echelon B" "sorted_wrt (<) c"
  shows "sorted_wrt (<) r"
  using assms(1,3)
proof (rule reduces_invariant)
  fix c' b assume "sorted_wrt (<) c'" "B (Max (set c')) = Some b"
  then show "sorted_wrt (<) (set_symmetric_difference c' b)"
    using assms(2) by (auto simp: echelon_def intro: sorted_symdiff)
qed

subsection \<open>Standard reduction returns\<close>

lemma owners_cong:
  assumes "\<And>k. k \<in> K \<Longrightarrow> R' ! k = R ! k"
  shows "owners R' K lut = owners R K lut"
proof -
  have "(k \<in> K \<and> R' ! k \<noteq> [] \<and> Max (set (R' ! k)) = i) \<longleftrightarrow> (k \<in> K \<and> R ! k \<noteq> [] \<and> Max (set (R ! k)) = i)"
    for i k using assms [of k] by auto
  then show ?thesis by (simp add: owners_def)
qed

lemma basis_cong:
  assumes "owners R K lut" and "\<And>k. k \<in> K \<Longrightarrow> R' ! k = R ! k"
  shows "basis R' lut = basis R lut"
proof
  fix i
  show "basis R' lut i = basis R lut i"
  proof (cases "lut i")
    case None
    then show ?thesis by (simp add: basis_def)
  next
    case (Some k)
    then have "k \<in> K" using assms(1) by (simp add: owners_def)
    then show ?thesis using Some assms(2) by (simp add: basis_def)
  qed
qed

lemma owners_extend_empty:
  assumes "owners R K lut" "R ! j = []"
  shows "owners R (insert j K) lut"
  using assms unfolding owners_def by auto

lemma owners_extend:
  assumes own: "owners R K lut" and ne: "R ! j \<noteq> []" and free: "lut (Max (set (R ! j))) = None"
  shows "owners R (insert j K) (lut(Max (set (R ! j)) \<mapsto> j))"
  unfolding owners_def
proof (intro allI)
  fix i k
  let ?p = "Max (set (R ! j))"
  have none: "\<not> (k' \<in> K \<and> R ! k' \<noteq> [] \<and> Max (set (R ! k')) = ?p)" for k'
    using own free unfolding owners_def by (metis option.distinct(1))
  show "(lut(?p \<mapsto> j)) i = Some k \<longleftrightarrow> (k \<in> insert j K \<and> R ! k \<noteq> [] \<and> Max (set (R ! k)) = i)"
  proof (cases "i = ?p")
    case True
    then show ?thesis using ne none [of k] by auto
  next
    case False
    then have "(lut(?p \<mapsto> j)) i = Some k \<longleftrightarrow> (k \<in> K \<and> R ! k \<noteq> [] \<and> Max (set (R ! k)) = i)"
      using own unfolding owners_def by simp
    then show ?thesis using False by auto
  qed
qed

lemma owners_echelon:
  assumes "owners R K lut" and "\<And>k. k \<in> K \<Longrightarrow> sorted_wrt (<) (R ! k)"
  shows "echelon (basis R lut)"
  unfolding echelon_def
proof (intro allI impI)
  fix i b assume "basis R lut i = Some b"
  then obtain k where k: "lut i = Some k" "b = R ! k" by (auto simp: basis_def)
  then have "k \<in> K \<and> R ! k \<noteq> [] \<and> Max (set (R ! k)) = i"
    using assms(1) by (simp add: owners_def)
  then show "b \<noteq> [] \<and> sorted_wrt (<) b \<and> Max (set b) = i"
    using k(2) assms(2) by simp
qed

lemma owners_unique:
  assumes "owners R K lut" "k \<in> K" "k' \<in> K" "R ! k \<noteq> []" "R ! k' \<noteq> []"
    "Max (set (R ! k)) = Max (set (R ! k'))"
  shows "k = k'"
proof -
  have "lut (Max (set (R ! k))) = Some k" "lut (Max (set (R ! k))) = Some k'"
    using assms unfolding owners_def by metis+
  then show ?thesis by simp
qed

lemma basis_owner:
  assumes "owners R K lut" "basis R lut i = Some b"
  obtains k where "k \<in> K" "b = R ! k" "R ! k \<noteq> []" "Max (set (R ! k)) = i"
proof -
  from assms(2) obtain k where k: "lut i = Some k" "b = R ! k" by (auto simp: basis_def)
  with assms(1) have "k \<in> K \<and> R ! k \<noteq> [] \<and> Max (set (R ! k)) = i" by (simp add: owners_def)
  with k(2) that show ?thesis by blast
qed

lemma pairs_of_snoc:
  "pairs_of R (ks @ [j]) = pairs_of R ks @ (if R ! j = [] then [] else [(Max (set (R ! j)), j)])"
  by (simp add: pairs_of_def)

lemma pairs_of_cong: "(\<And>k. k \<in> set ks \<Longrightarrow> R' ! k = R ! k) \<Longrightarrow> pairs_of R' ks = pairs_of R ks"
  unfolding pairs_of_def
  by (induction ks) auto

lemma standard_column_step:
  assumes j: "j < length D" and inv: "standard_inv D j s"
  shows "\<exists>s'. standard_column j s = Some (Inr s') \<and> standard_inv D (Suc j) s'"
proof -
  obtain M lut pairs where s: "s = (M, lut, pairs)" by (cases s)
  let ?R = "representation M"
  from inv s have red: "reduced_upto D ?R j" and own: "owners ?R {..<j} lut"
    and pairs: "pairs = pairs_of ?R [0..<j]"
    by (simp_all add: standard_inv_def)
  from red have len: "length ?R = length D"
    and sorted: "\<And>k. k < length D \<Longrightarrow> sorted_wrt (<) (?R ! k)"
    and rest: "\<And>k. j \<le> k \<Longrightarrow> k < length D \<Longrightarrow> ?R ! k = D ! k"
    and before: "\<And>k. k < j \<Longrightarrow> \<exists>lut. owners ?R {..<k} lut \<and> reduces (basis ?R lut) (D ! k) (?R ! k)"
    by (simp_all add: reduced_upto_def)
  have ech: "echelon (basis ?R lut)"
    using own by (rule owners_echelon) (use j sorted in auto)
  have col: "?R ! j = D ! j" using rest j by simp
  have sc: "sorted_wrt (<) (D ! j)" using sorted [OF j] col by simp
  from reduces_exists [OF ech sc] obtain r where r: "reduces (basis ?R lut) (D ! j) r" by blast
  have sr: "sorted_wrt (<) r" using r ech sc by (rule reduces_sorted)
  have notj: "\<forall>i. lut i \<noteq> Some j" using own by (auto simp: owners_def)
  let ?M' = "M\<lparr>representation := ?R[j := r]\<rparr>"
  let ?R' = "?R[j := r]"
  have run: "reduce_column lut j M = Some (Inr ?M')"
    using r by (rule reduce_column_reduces) (use j len col notj in \<open>auto simp: basis_def\<close>)
  have same: "?R' ! k = ?R ! k" if "k \<noteq> j" for k using that by simp
  have Rj: "?R' ! j = r" using j len by simp
  have red': "reduced_upto D ?R' (Suc j)"
    unfolding reduced_upto_def
  proof (intro conjI allI impI)
    show "length ?R' = length D" using len by simp
  next
    fix k assume "k < length D"
    then show "sorted_wrt (<) (?R' ! k)" using sorted sr Rj same by (cases "k = j") auto
  next
    fix k assume "Suc j \<le> k \<and> k < length D"
    then show "?R' ! k = D ! k" using rest [of k] same [of k] by simp
  next
    fix k assume "k < Suc j"
    show "\<exists>lut. owners ?R' {..<k} lut \<and> reduces (basis ?R' lut) (D ! k) (?R' ! k)"
    proof (cases "k = j")
      case True
      have "owners ?R' {..<j} lut" using own by (subst owners_cong [of _ _ ?R]) auto
      moreover have "basis ?R' lut = basis ?R lut" using own by (rule basis_cong) auto
      ultimately show ?thesis using r Rj True by auto
    next
      case False
      with \<open>k < Suc j\<close> have kj: "k < j" by simp
      from before [OF kj] obtain l where l: "owners ?R {..<k} l" "reduces (basis ?R l) (D ! k) (?R ! k)"
        by blast
      have "owners ?R' {..<k} l" using l(1) kj by (subst owners_cong [of _ _ ?R]) auto
      moreover have "basis ?R' l = basis ?R l" using l(1) by (rule basis_cong) (use kj in auto)
      ultimately show ?thesis using l(2) same [of k] kj by auto
    qed
  qed
  have cong_before: "\<And>k. k \<in> {..<j} \<Longrightarrow> ?R' ! k = ?R ! k" by simp
  have own_before: "owners ?R' {..<j} lut"
    using own by (subst owners_cong [of _ _ ?R]) auto
  have pairs_before: "pairs_of ?R' [0..<j] = pairs" unfolding pairs
    by (rule pairs_of_cong) auto
  show ?thesis
  proof (cases "r = []")
    case True
    have "standard_column j s = Some (Inr (?M', lut, pairs))"
      using run True Rj j len by (simp add: s standard_column_def getMaximumIndex_simps)
    moreover have "standard_inv D (Suc j) (?M', lut, pairs)"
      using red' owners_extend_empty [OF own_before, of j] True Rj pairs_before
      by (simp add: standard_inv_def lessThan_Suc pairs_of_snoc)
    ultimately show ?thesis by blast
  next
    case False
    let ?p = "Max (set r)"
    have free: "lut ?p = None"
      using reduces_final [OF r] False by (auto simp: basis_def)
    have "standard_column j s = Some (Inr (?M', lut(?p \<mapsto> j), pairs @ [(?p, j)]))"
      using run False Rj j len by (simp add: s standard_column_def getMaximumIndex_simps)
    moreover have "standard_inv D (Suc j) (?M', lut(?p \<mapsto> j), pairs @ [(?p, j)])"
      using red' owners_extend [OF own_before, of j] False Rj free pairs_before
      by (simp add: standard_inv_def lessThan_Suc pairs_of_snoc)
    ultimately show ?thesis by blast
  qed
qed

lemma for_each_snoc:
  "for_each body (as @ [a]) s =
     (case for_each body as s of
        None \<Rightarrow> None
      | Some (Inl e) \<Rightarrow> Some (Inl e)
      | Some (Inr s') \<Rightarrow> body a s')"
  by (induction as arbitrary: s) (auto split: option.splits sum.splits)

lemma for_each_upt:
  assumes "I 0 s0" and "\<And>j s. j < n \<Longrightarrow> I j s \<Longrightarrow> \<exists>s'. body j s = Some (Inr s') \<and> I (Suc j) s'"
  shows "\<exists>s'. for_each body [0..<n] s0 = Some (Inr s') \<and> I n s'"
  using assms(2)
proof (induction n)
  case 0
  then show ?case using assms(1) by simp
next
  case (Suc n)
  then obtain s1 where s1: "for_each body [0..<n] s0 = Some (Inr s1)" "I n s1"
    by (metis less_Suc_eq)
  from Suc.prems [of n s1] s1(2) obtain s2 where "body n s1 = Some (Inr s2)" "I (Suc n) s2" by auto
  then show ?case using s1(1) by (simp add: for_each_snoc)
qed

lemma standard_reduction_result:
  assumes "columns_sorted (representation M)"
  shows "\<exists>M' lut. standard_reduction M
             = Some (Inr (pairs_of (representation M') [0..<length (representation M)], M'))
           \<and> reduced_upto (representation M) (representation M') (length (representation M))
           \<and> owners (representation M') {..<length (representation M)} lut"
proof -
  let ?D = "representation M"
  have init: "standard_inv ?D 0 (M, Map.empty, [])"
    using assms by (simp add: standard_inv_def reduced_upto_def owners_def pairs_of_def columns_sorted_def)
  have "\<exists>s'. for_each standard_column [0..<length ?D] (M, Map.empty, []) = Some (Inr s')
          \<and> standard_inv ?D (length ?D) s'"
    using init by (rule for_each_upt) (rule standard_column_step)
  then obtain s' where s': "for_each standard_column [0..<length ?D] (M, Map.empty, []) = Some (Inr s')"
    "standard_inv ?D (length ?D) s'"
    by blast
  obtain M' lut pairs where "s' = (M', lut, pairs)" by (cases s')
  with s' show ?thesis
    by (auto simp: standard_reduction_def standard_inv_def getNumColumns_def rep_getNumColumns_def)
qed

subsection \<open>The reduced matrix\<close>

lemma reduced_column:
  assumes "reduced_upto D R (length D)" "k < length D"
  obtains lut where "owners R {..<k} lut" "reduces (basis R lut) (D ! k) (R ! k)"
  using assms unfolding reduced_upto_def by blast

lemma reduced_sorted:
  assumes "reduced_upto D R (length D)" "k < length D"
  shows "sorted_wrt (<) (R ! k)"
  using assms unfolding reduced_upto_def by blast

lemma reduced_entries:
  assumes red: "reduced_upto D R (length D)" and rng: "entries_in_range D"
  shows "k < length D \<Longrightarrow> \<forall>i\<in>set (R ! k). i < length D"
proof (induction k rule: less_induct)
  case (less k)
  from red less.prems obtain lut where lut: "owners R {..<k} lut" "reduces (basis R lut) (D ! k) (R ! k)"
    by (rule reduced_column)
  from lut(2) show ?case
  proof (rule reduces_invariant)
    show "\<forall>i\<in>set (D ! k). i < length D" using rng less.prems by (simp add: entries_in_range_def)
  next
    fix c' b assume c': "\<forall>i\<in>set c'. i < length D" and b: "basis R lut (Max (set c')) = Some b"
    from lut(1) b obtain k' where k': "k' \<in> {..<k}" "b = R ! k'" by (rule basis_owner)
    then have "\<forall>i\<in>set b. i < length D" using less.IH [of k'] less.prems by simp
    with c' show "\<forall>i\<in>set (set_symmetric_difference c' b). i < length D"
      using set_symdiff_subset [of c' b] by blast
  qed
qed

lemma band_rows_eq: "rep_getDimension_of D k' = rep_getDimension_of D k \<Longrightarrow> band_rows D k' = band_rows D k"
  by (simp add: band_rows_def)

lemma band_rows_same:
  assumes dc: "dimension_consistent D" and "i \<in> band_rows D a" "i \<in> band_rows D b"
  shows "rep_getDimension_of D a = rep_getDimension_of D b"
proof -
  from assms(2) obtain a' where a': "a' < length D" "rep_getDimension_of D a' = rep_getDimension_of D a" "i \<in> set (D ! a')"
    by (auto simp: band_rows_def)
  from assms(3) obtain b' where b': "b' < length D" "rep_getDimension_of D b' = rep_getDimension_of D b" "i \<in> set (D ! b')"
    by (auto simp: band_rows_def)
  have "set (D ! a') \<inter> set (D ! b') \<noteq> {}" using a'(3) b'(3) by blast
  with dc a'(1) b'(1) have "rep_getDimension_of D a' = rep_getDimension_of D b'" by (simp add: dimension_consistent_def)
  with a'(2) b'(2) show ?thesis by simp
qed

lemma reduced_support:
  assumes red: "reduced_upto D R (length D)" and dc: "dimension_consistent D"
  shows "k < length D \<Longrightarrow> set (R ! k) \<subseteq> band_rows D k"
proof (induction k rule: less_induct)
  case (less k)
  from red less.prems obtain lut where lut: "owners R {..<k} lut" "reduces (basis R lut) (D ! k) (R ! k)"
    by (rule reduced_column)
  from lut(2) show ?case
  proof (rule reduces_invariant)
    show "set (D ! k) \<subseteq> band_rows D k" using less.prems by (auto simp: band_rows_def)
  next
    fix c' b assume c': "set c' \<subseteq> band_rows D k" and ne: "c' \<noteq> []"
      and b: "basis R lut (Max (set c')) = Some b"
    from lut(1) b obtain k' where k': "k' \<in> {..<k}" "b = R ! k'" "R ! k' \<noteq> []"
      "Max (set (R ! k')) = Max (set c')" by (rule basis_owner)
    have kD: "k' < length D" using k'(1) less.prems by simp
    have sup: "set (R ! k') \<subseteq> band_rows D k'" using less.IH [of k'] k'(1) kD by simp
    have "Max (set c') \<in> set c'" using ne by simp
    moreover have "Max (set c') \<in> set (R ! k')" using k'(3,4) Max_in [of "set (R ! k')"] by simp
    ultimately have "rep_getDimension_of D k' = rep_getDimension_of D k"
      using band_rows_same [OF dc, of "Max (set c')" k' k] sup c' by blast
    then have "band_rows D k' = band_rows D k" by (rule band_rows_eq)
    then have "set b \<subseteq> band_rows D k" using sup k'(2) by simp
    with c' show "set (set_symmetric_difference c' b) \<subseteq> band_rows D k"
      using set_symdiff_subset [of c' b] by blast
  qed
qed

lemma owner_same_band:
  assumes red: "reduced_upto D R (length D)" and dc: "dimension_consistent D"
    and k: "k < length D" "R ! k \<noteq> []" and i: "Max (set (R ! k)) \<in> band_rows D j"
  shows "rep_getDimension_of D k = rep_getDimension_of D j"
proof -
  have "Max (set (R ! k)) \<in> set (R ! k)" using k(2) by simp
  then have "Max (set (R ! k)) \<in> band_rows D k" using reduced_support [OF red dc k(1)] by blast
  with dc show ?thesis using i by (rule band_rows_same)
qed

lemma reduced_cycle:
  assumes red: "reduced_upto D R (length D)" and bz: "boundary_zero D"
    and cs: "columns_sorted D"
  shows "k < length D \<Longrightarrow> gsum (\<lambda>i. set (D ! i)) (set (R ! k)) = {}"
proof (induction k rule: less_induct)
  case (less k)
  let ?G = "gsum (\<lambda>i. set (D ! i))"
  from red less.prems obtain lut where lut: "owners R {..<k} lut" "reduces (basis R lut) (D ! k) (R ! k)"
    by (rule reduced_column)
  have "?G (set (R ! k)) = {} \<and> sorted_wrt (<) (R ! k)"
    using lut(2)
  proof (rule reduces_invariant)
    show "?G (set (D ! k)) = {} \<and> sorted_wrt (<) (D ! k)"
      using bz cs less.prems by (simp add: boundary_zero_def columns_sorted_def)
  next
    fix c' b assume c': "?G (set c') = {} \<and> sorted_wrt (<) c'"
      and b: "basis R lut (Max (set c')) = Some b"
    from lut(1) b obtain k' where k': "k' \<in> {..<k}" "b = R ! k'" by (rule basis_owner)
    have kD: "k' < length D" using k'(1) less.prems by simp
    have zb: "?G (set b) = {}" using less.IH [of k'] k' kD by simp
    have sb: "sorted_wrt (<) b" using reduced_sorted [OF red kD] k'(2) by simp
    have "set (set_symmetric_difference c' b) = sym_diff (set c') (set b)"
      using c' sb by (simp add: set_symdiff)
    then have "?G (set (set_symmetric_difference c' b)) = sym_diff (?G (set c')) (?G (set b))"
      by (simp add: gsum_sym_diff)
    then show "?G (set (set_symmetric_difference c' b)) = {} \<and> sorted_wrt (<) (set_symmetric_difference c' b)"
      using c' zb sb by (simp add: sorted_symdiff)
  qed
  then show ?case by simp
qed

lemma reduced_combination:
  assumes red: "reduced_upto D R (length D)" and cs: "columns_sorted D" and k: "k < length D"
  shows "\<exists>W. W \<subseteq> {..<k} \<and> set (D ! k) = sym_diff (set (R ! k)) (gsum (\<lambda>i. set (R ! i)) W)"
proof -
  let ?G = "gsum (\<lambda>i. set (R ! i))"
  from red k obtain lut where lut: "owners R {..<k} lut" "reduces (basis R lut) (D ! k) (R ! k)"
    by (rule reduced_column)
  have "sorted_wrt (<) (R ! k) \<and> (\<exists>W. W \<subseteq> {..<k} \<and> set (D ! k) = sym_diff (set (R ! k)) (?G W))"
    using lut(2)
  proof (rule reduces_invariant)
    have "set (D ! k) = sym_diff (set (D ! k)) (?G {})" by simp
    then show "sorted_wrt (<) (D ! k) \<and> (\<exists>W. W \<subseteq> {..<k} \<and> set (D ! k) = sym_diff (set (D ! k)) (?G W))"
      using cs k by (auto simp: columns_sorted_def)
  next
    fix c' b
    assume c': "sorted_wrt (<) c' \<and> (\<exists>W. W \<subseteq> {..<k} \<and> set (D ! k) = sym_diff (set c') (?G W))"
      and b: "basis R lut (Max (set c')) = Some b"
    from c' obtain W where W: "W \<subseteq> {..<k}" "set (D ! k) = sym_diff (set c') (?G W)" by blast
    from lut(1) b obtain k' where k': "k' \<in> {..<k}" "b = R ! k'" by (rule basis_owner)
    have kD: "k' < length D" using k'(1) k by simp
    have sb: "sorted_wrt (<) b" using reduced_sorted [OF red kD] k'(2) by simp
    have fin: "finite W" using W(1) finite_subset by blast
    let ?W = "sym_diff {k'} W"
    have sub: "?W \<subseteq> {..<k}" using W(1) k'(1) by blast
    have "?G ?W = sym_diff (set b) (?G W)"
      using fin by (simp add: gsum_sym_diff k'(2))
    moreover have "set (set_symmetric_difference c' b) = sym_diff (set c') (set b)"
      using c' sb by (simp add: set_symdiff)
    ultimately have "sym_diff (set (set_symmetric_difference c' b)) (?G ?W) = sym_diff (set c') (?G W)"
      by (simp only: sym_diff_cancel)
    with W(2) have eq: "set (D ! k) = sym_diff (set (set_symmetric_difference c' b)) (?G ?W)" by simp
    have "sorted_wrt (<) (set_symmetric_difference c' b)" using c' sb by (simp add: sorted_symdiff)
    moreover have "\<exists>W. W \<subseteq> {..<k} \<and> set (D ! k) = sym_diff (set (set_symmetric_difference c' b)) (?G W)"
      using sub eq by (intro exI [of _ ?W] conjI)
    ultimately show "sorted_wrt (<) (set_symmetric_difference c' b)
        \<and> (\<exists>W. W \<subseteq> {..<k} \<and> set (D ! k) = sym_diff (set (set_symmetric_difference c' b)) (?G W))"
      by (rule conjI)
  qed
  then show ?thesis by blast
qed

lemma original_in_span:
  assumes red: "reduced_upto D R (length D)" and cs: "columns_sorted D" and a: "a < length D"
  shows "\<exists>W. W \<subseteq> {..a} \<and> set (D ! a) = gsum (\<lambda>i. set (R ! i)) W"
proof -
  from reduced_combination [OF red cs a] obtain W where
    W: "W \<subseteq> {..<a}" "set (D ! a) = sym_diff (set (R ! a)) (gsum (\<lambda>i. set (R ! i)) W)"
    by blast
  have fin: "finite W" using W(1) finite_subset by blast
  have "a \<notin> W" using W(1) by auto
  then have "gsum (\<lambda>i. set (R ! i)) (insert a W) = sym_diff (set (R ! a)) (gsum (\<lambda>i. set (R ! i)) W)"
    using fin by (simp add: gsum_insert)
  with W(2) have "set (D ! a) = gsum (\<lambda>i. set (R ! i)) (insert a W)" by simp
  moreover have "insert a W \<subseteq> {..a}" using W(1) by auto
  ultimately show ?thesis by blast
qed

lemma originals_in_span:
  assumes red: "reduced_upto D R (length D)" and cs: "columns_sorted D" and p: "p \<le> length D"
  shows "finite A \<Longrightarrow> A \<subseteq> {..<p} \<Longrightarrow>
         \<exists>W. W \<subseteq> {..<p} \<and> gsum (\<lambda>i. set (D ! i)) A = gsum (\<lambda>i. set (R ! i)) W"
proof (induction A rule: finite_induct)
  case empty
  have "gsum (\<lambda>i. set (D ! i)) {} = gsum (\<lambda>i. set (R ! i)) {}" by simp
  then show ?case by blast
next
  case (insert a A)
  then obtain W where W: "W \<subseteq> {..<p}" "gsum (\<lambda>i. set (D ! i)) A = gsum (\<lambda>i. set (R ! i)) W"
    by auto
  have a: "a < p" using insert.prems by simp
  then have "a < length D" using p by simp
  from original_in_span [OF red cs this] obtain Wa where
    Wa: "Wa \<subseteq> {..a}" "set (D ! a) = gsum (\<lambda>i. set (R ! i)) Wa" by blast
  have fin: "finite W" "finite Wa" using W(1) Wa(1) finite_subset by blast+
  have "gsum (\<lambda>i. set (D ! i)) (insert a A) = sym_diff (set (D ! a)) (gsum (\<lambda>i. set (D ! i)) A)"
    using insert.hyps by (simp add: gsum_insert)
  also have "\<dots> = sym_diff (gsum (\<lambda>i. set (R ! i)) Wa) (gsum (\<lambda>i. set (R ! i)) W)"
    using W(2) Wa(2) by simp
  also have "\<dots> = gsum (\<lambda>i. set (R ! i)) (sym_diff Wa W)"
    using fin by (simp add: gsum_sym_diff)
  finally have "gsum (\<lambda>i. set (D ! i)) (insert a A) = gsum (\<lambda>i. set (R ! i)) (sym_diff Wa W)" .
  moreover have "sym_diff Wa W \<subseteq> {..<p}" using W(1) Wa(1) a by auto
  ultimately show ?case by blast
qed

text \<open>
  The fact behind the twist: when the reduced column \<open>j\<close> has the pivot \<open>p\<close>, the reduced
  column \<open>p\<close> is empty. The boundary of the reduced column \<open>j\<close> is zero, so column \<open>p\<close> of
  the input is a sum of earlier columns, and a column that depends on earlier ones reduces
  to the empty column.
\<close>

lemma cleared_column_zero:
  assumes red: "reduced_upto D R (length D)" and bz: "boundary_zero D"
    and cs: "columns_sorted D" and rng: "entries_in_range D"
    and j: "j < length D" and ne: "R ! j \<noteq> []"
  shows "R ! (Max (set (R ! j))) = []"
proof (rule ccontr)
  let ?p = "Max (set (R ! j))"
  let ?GD = "gsum (\<lambda>i. set (D ! i))"
  let ?GR = "gsum (\<lambda>i. set (R ! i))"
  assume nonzero: "R ! ?p \<noteq> []"
  have p_in: "?p \<in> set (R ! j)" using ne by simp
  then have p: "?p < length D" using reduced_entries [OF red rng j] by blast
  let ?rest = "set (R ! j) - {?p}"
  have rest_lt: "?rest \<subseteq> {..<?p}"
  proof
    fix x assume "x \<in> ?rest"
    then have "x \<le> ?p" "x \<noteq> ?p" by auto
    then show "x \<in> {..<?p}" by simp
  qed
  have "?GD (insert ?p ?rest) = sym_diff (set (D ! ?p)) (?GD ?rest)"
    by (rule gsum_insert) simp_all
  moreover have "insert ?p ?rest = set (R ! j)" using p_in by blast
  ultimately have "sym_diff (set (D ! ?p)) (?GD ?rest) = {}"
    using reduced_cycle [OF red bz cs j] by simp
  then have Dp: "set (D ! ?p) = ?GD ?rest" by (rule sym_diff_empty)
  from originals_in_span [OF red cs, of ?p ?rest] p rest_lt
  obtain W1 where W1: "W1 \<subseteq> {..<?p}" "?GD ?rest = ?GR W1" by auto
  from reduced_combination [OF red cs p] obtain W2 where
    W2: "W2 \<subseteq> {..<?p}" "set (D ! ?p) = sym_diff (set (R ! ?p)) (?GR W2)" by blast
  have fin: "finite W1" "finite W2" using W1(1) W2(1) finite_subset by blast+
  have "set (R ! ?p) = sym_diff (set (D ! ?p)) (?GR W2)" using W2(2) by (rule sym_diff_swap)
  also have "\<dots> = ?GR (sym_diff W1 W2)" using Dp W1(2) fin by (simp add: gsum_sym_diff)
  finally have Rp: "set (R ! ?p) = ?GR (sym_diff W1 W2)" .
  let ?W = "{w \<in> sym_diff W1 W2. set (R ! w) \<noteq> {}}"
  have RpW: "set (R ! ?p) = ?GR ?W" using Rp gsum_drop_empty [of "\<lambda>i. set (R ! i)" "sym_diff W1 W2"] by simp
  have Wsub: "?W \<subseteq> {..<?p}" using W1(1) W2(1) by blast
  have Wfin: "finite ?W" using fin by simp
  have Wne: "?W \<noteq> {}"
  proof
    assume "?W = {}"
    then have "?GR ?W = ?GR {}" by (rule arg_cong)
    with RpW have "set (R ! ?p) = ?GR {}" by (rule trans)
    then show False using nonzero by simp
  qed
  from red p obtain lut where lut: "owners R {..<?p} lut" "reduces (basis R lut) (D ! ?p) (R ! ?p)"
    by (rule reduced_column)
  have inj: "inj_on (\<lambda>w. Max (set (R ! w))) ?W"
  proof (rule inj_onI)
    fix w w' assume "w \<in> ?W" "w' \<in> ?W" "Max (set (R ! w)) = Max (set (R ! w'))"
    then show "w = w'" using owners_unique [OF lut(1), of w w'] Wsub by auto
  qed
  have "?GR ?W \<noteq> {} \<and> Max (?GR ?W) \<in> (\<lambda>w. Max (set (R ! w))) ` ?W"
    using Wfin Wne _ inj by (rule gsum_echelon) auto
  then obtain w where w: "w \<in> ?W" "Max (set (R ! ?p)) = Max (set (R ! w))"
    using RpW by auto
  then have "w \<in> {..<?p}" "R ! w \<noteq> []" using Wsub by auto
  then have "lut (Max (set (R ! ?p))) = Some w"
    using lut(1) w(2) by (simp add: owners_def)
  then have "basis R lut (Max (set (R ! ?p))) \<noteq> None" by (simp add: basis_def)
  with reduces_final [OF lut(2)] nonzero show False by simp
qed

subsection \<open>Twist reduction follows standard reduction\<close>

lemma twist_column_step:
  assumes red: "reduced_upto D R (length D)" and bz: "boundary_zero D"
    and cs: "columns_sorted D" and rng: "entries_in_range D" and dc: "dimension_consistent D"
    and j: "j < length D" and jK: "j \<notin> K" and KN: "K \<subseteq> {..<length D}"
    and band: "\<And>k. k < length D \<Longrightarrow> rep_getDimension_of D k = rep_getDimension_of D j \<Longrightarrow> (k \<in> K \<longleftrightarrow> k < j)"
    and inv: "twist_inv D R K s"
  shows "\<exists>s'. twist_column j s = Some (Inr s') \<and> twist_inv D R (insert j K) s'"
proof -
  obtain M lut resolved pairs where s: "s = (M, lut, resolved, pairs)" by (cases s)
  let ?C = "representation M"
  from inv s have len: "length ?C = length D"
    and cols: "\<And>k. k < length D \<Longrightarrow> ?C ! k = (if k \<in> resolved then [] else if k \<in> K then R ! k else D ! k)"
    and res: "\<And>k. k \<in> resolved \<Longrightarrow> k < length D \<and> R ! k = []"
    and own: "owners R K lut"
    and pairs: "set pairs = {(Max (set (R ! k)), k) | k. k \<in> K \<and> R ! k \<noteq> []}"
    by (simp_all add: twist_inv_def)
  show ?thesis
  proof (cases "j \<in> resolved")
    case True
    then have Rj: "R ! j = []" using res by simp
    have "twist_column j s = Some (Inr s)" using True by (simp add: s twist_column_def)
    moreover have "twist_inv D R (insert j K) s"
      unfolding s twist_inv_def
    proof (simp only: prod.case, intro conjI allI impI ballI)
      show "length ?C = length D" by fact
    next
      fix k assume "k < length D"
      then show "?C ! k = (if k \<in> resolved then [] else if k \<in> insert j K then R ! k else D ! k)"
        using cols [of k] True by (cases "k = j") auto
    next
      fix k assume "k \<in> resolved"
      then show "k < length D" "R ! k = []" using res by simp_all
    next
      show "owners R (insert j K) lut" using own Rj by (rule owners_extend_empty)
    next
      show "set pairs = {(Max (set (R ! k)), k) | k. k \<in> insert j K \<and> R ! k \<noteq> []}"
        unfolding pairs using Rj by auto
    qed
    ultimately show ?thesis by blast
  next
    case False
    have Cj: "?C ! j = D ! j" using cols [OF j] False jK by simp
    from red j obtain lutj where lutj: "owners R {..<j} lutj" "reduces (basis R lutj) (D ! j) (R ! j)"
      by (rule reduced_column)
    have same_basis: "basis ?C lut i = basis R lut i" for i
    proof (cases "lut i")
      case None
      then show ?thesis by (simp add: basis_def)
    next
      case (Some k)
      then have k: "k \<in> K" "R ! k \<noteq> []" using own by (simp_all add: owners_def)
      then have "k \<notin> resolved" using res by auto
      moreover have "k < length D" using k(1) KN by auto
      ultimately have "?C ! k = R ! k" using cols [of k] k(1) by simp
      then show ?thesis using Some by (simp add: basis_def)
    qed
    have agree: "lut i = lutj i" if i: "i \<in> band_rows D j" for i
    proof -
      have fwd: "lut i = Some k" if "lutj i = Some k" for k
      proof -
        from that lutj(1) have k: "k < j" "R ! k \<noteq> []" "Max (set (R ! k)) = i"
          by (simp_all add: owners_def)
        then have kD: "k < length D" using j by simp
        have "rep_getDimension_of D k = rep_getDimension_of D j"
          using owner_same_band [OF red dc kD k(2)] k(3) i by simp
        then have "k \<in> K" using band [OF kD] k(1) by simp
        then show ?thesis using own k(2,3) by (simp add: owners_def)
      qed
      have bwd: "lutj i = Some k" if "lut i = Some k" for k
      proof -
        from that own have k: "k \<in> K" "R ! k \<noteq> []" "Max (set (R ! k)) = i"
          by (simp_all add: owners_def)
        then have kD: "k < length D" using KN by auto
        have "rep_getDimension_of D k = rep_getDimension_of D j"
          using owner_same_band [OF red dc kD k(2)] k(3) i by simp
        then have "k < j" using band [OF kD] k(1) by simp
        then show ?thesis using lutj(1) k(2,3) by (simp add: owners_def)
      qed
      show ?thesis
      proof (cases "lutj i")
        case None
        then show ?thesis using bwd by (cases "lut i") auto
      next
        case (Some k)
        then show ?thesis using fwd by simp
      qed
    qed
    have run_rel: "reduces (basis ?C lut) (D ! j) (R ! j)"
      using lutj(2)
    proof (rule reduces_agree [where P = "\<lambda>c. set c \<subseteq> band_rows D j"])
      show "set (D ! j) \<subseteq> band_rows D j" using j by (auto simp: band_rows_def)
    next
      fix c' b assume c': "set c' \<subseteq> band_rows D j" and ne: "c' \<noteq> []"
        and b: "basis R lutj (Max (set c')) = Some b"
      from lutj(1) b obtain k' where k': "k' \<in> {..<j}" "b = R ! k'" "R ! k' \<noteq> []"
        "Max (set (R ! k')) = Max (set c')" by (rule basis_owner)
      have kD: "k' < length D" using k'(1) j by simp
      have "Max (set c') \<in> band_rows D j" using c' ne Max_in [of "set c'"] by auto
      then have "rep_getDimension_of D k' = rep_getDimension_of D j"
        using owner_same_band [OF red dc kD k'(3)] k'(4) by simp
      then have "band_rows D k' = band_rows D j" by (rule band_rows_eq)
      then have "set b \<subseteq> band_rows D j" using reduced_support [OF red dc kD] k'(2) by simp
      with c' show "set (set_symmetric_difference c' b) \<subseteq> band_rows D j"
        using set_symdiff_subset [of c' b] by blast
    next
      fix c' assume c': "set c' \<subseteq> band_rows D j" and ne: "c' \<noteq> []"
      have "Max (set c') \<in> band_rows D j" using c' ne Max_in [of "set c'"] by auto
      then have "lut (Max (set c')) = lutj (Max (set c'))" by (rule agree)
      then have "basis R lut (Max (set c')) = basis R lutj (Max (set c'))" by (simp add: basis_def)
      then show "basis ?C lut (Max (set c')) = basis R lutj (Max (set c'))"
        using same_basis [of "Max (set c')"] by simp
    qed
    have notj: "\<forall>i. lut i \<noteq> Some j" using own jK by (auto simp: owners_def)
    let ?M' = "M\<lparr>representation := ?C[j := R ! j]\<rparr>"
    have run: "reduce_column lut j M = Some (Inr ?M')"
      using run_rel by (rule reduce_column_reduces) (use j len Cj notj in \<open>auto simp: basis_def\<close>)
    have Cj': "?C[j := R ! j] ! j = R ! j" using j len by simp
    show ?thesis
    proof (cases "R ! j = []")
      case True
      have "twist_column j s = Some (Inr (?M', lut, resolved, pairs))"
        using run True False Cj' j len by (simp add: s twist_column_def getMaximumIndex_simps)
      moreover have "twist_inv D R (insert j K) (?M', lut, resolved, pairs)"
        unfolding twist_inv_def
      proof (simp only: prod.case, intro conjI allI impI ballI)
        show "length (representation ?M') = length D" using len by simp
      next
        fix k assume k: "k < length D"
        show "representation ?M' ! k = (if k \<in> resolved then [] else if k \<in> insert j K then R ! k else D ! k)"
          using cols [OF k] False Cj' by (cases "k = j") auto
      next
        fix k assume "k \<in> resolved"
        then show "k < length D" "R ! k = []" using res by simp_all
      next
        show "owners R (insert j K) lut" using own True by (rule owners_extend_empty)
      next
        show "set pairs = {(Max (set (R ! k)), k) | k. k \<in> insert j K \<and> R ! k \<noteq> []}"
          unfolding pairs using True by auto
      qed
      ultimately show ?thesis by blast
    next
      case ne: False
      let ?p = "Max (set (R ! j))"
      have p: "?p < length D" using reduced_entries [OF red rng j] ne Max_in [of "set (R ! j)"] by auto
      have Rp: "R ! ?p = []" using red bz cs rng j ne by (rule cleared_column_zero)
      have pj: "?p \<noteq> j" using Rp ne by auto
      have free: "lut ?p = None"
      proof -
        have "basis ?C lut ?p = None" using reduces_final [OF run_rel] ne by simp
        then have "basis R lut ?p = None" by (simp add: same_basis)
        moreover have "R ! k \<noteq> []" if "lut ?p = Some k" for k
          using that own by (simp add: owners_def)
        ultimately show ?thesis by (cases "lut ?p") (auto simp: basis_def)
      qed
      let ?M'' = "clearColumn ?p ?M'"
      have rep'': "representation ?M'' = ?C[j := R ! j, ?p := []]"
        by (simp add: clearColumn_def rep_clearColumn_def)
      have "twist_column j s
              = Some (Inr (?M'', lut(?p \<mapsto> j), insert ?p resolved, pairs @ [(?p, j)]))"
        using run ne False Cj' j len by (simp add: s twist_column_def getMaximumIndex_simps)
      moreover have "twist_inv D R (insert j K) (?M'', lut(?p \<mapsto> j), insert ?p resolved, pairs @ [(?p, j)])"
        unfolding twist_inv_def
      proof (simp only: prod.case, intro conjI allI impI ballI)
        show "length (representation ?M'') = length D" using len by (simp add: rep'')
      next
        fix k assume k: "k < length D"
        show "representation ?M'' ! k
                = (if k \<in> insert ?p resolved then [] else if k \<in> insert j K then R ! k else D ! k)"
        proof (cases "k = ?p")
          case True
          then show ?thesis using p len by (simp add: rep'')
        next
          case kp: False
          show ?thesis
          proof (cases "k = j")
            case True
            then show ?thesis using kp False j len by (simp add: rep'')
          next
            case kj: False
            then show ?thesis using kp cols [OF k] by (simp add: rep'')
          qed
        qed
      next
        fix k assume "k \<in> insert ?p resolved"
        then show "k < length D" "R ! k = []" using res p Rp by auto
      next
        show "owners R (insert j K) (lut(?p \<mapsto> j))" using own ne free by (rule owners_extend)
      next
        show "set (pairs @ [(?p, j)]) = {(Max (set (R ! k)), k) | k. k \<in> insert j K \<and> R ! k \<noteq> []}"
          using pairs ne by auto
      qed
      ultimately show ?thesis by blast
    qed
  qed
qed

lemma twist_band_step:
  assumes red: "reduced_upto D R (length D)" and bz: "boundary_zero D"
    and cs: "columns_sorted D" and rng: "entries_in_range D" and dc: "dimension_consistent D"
    and d: "d \<notin> Ds"
    and inv: "twist_inv D R {k. k < length D \<and> column_dims D ! k \<in> Ds} s"
  shows "\<exists>s'. twist_band (column_dims D) d s = Some (Inr s')
           \<and> twist_inv D R {k. k < length D \<and> column_dims D ! k \<in> insert d Ds} s'"
proof -
  let ?dims = "column_dims D"
  let ?Kold = "{k. k < length D \<and> ?dims ! k \<in> Ds}"
  let ?I = "\<lambda>j s. twist_inv D R (?Kold \<union> {k. k < j \<and> ?dims ! k = d}) s"
  let ?body = "\<lambda>j s'. if ?dims ! j = d then twist_column j s' else Some (Inr s')"
  have dim_eq: "?dims ! k = ?dims ! j \<longleftrightarrow> rep_getDimension_of D k = rep_getDimension_of D j"
    if "k < length D" "j < length D" for k j
    using that by (simp add: column_dims_def)
  have "\<exists>s'. for_each ?body [0..<length D] s = Some (Inr s') \<and> ?I (length D) s'"
  proof (rule for_each_upt [where I = "?I"])
    show "?I 0 s" using inv by simp
  next
    fix j t assume j: "j < length D" and I: "?I j t"
    let ?K = "?Kold \<union> {k. k < j \<and> ?dims ! k = d}"
    show "\<exists>s'. ?body j t = Some (Inr s') \<and> ?I (Suc j) s'"
    proof (cases "?dims ! j = d")
      case True
      have next_set: "insert j ?K = ?Kold \<union> {k. k < Suc j \<and> ?dims ! k = d}"
        using True by (auto simp: less_Suc_eq)
      have "\<exists>s'. twist_column j t = Some (Inr s') \<and> twist_inv D R (insert j ?K) s'"
        using red bz cs rng dc j
      proof (rule twist_column_step)
        show "j \<notin> ?K" using True d by auto
        show "?K \<subseteq> {..<length D}" using j by auto
        show "twist_inv D R ?K t" by fact
      next
        fix k assume k: "k < length D" and same: "rep_getDimension_of D k = rep_getDimension_of D j"
        then have "?dims ! k = d" using dim_eq [OF k j] True by simp
        then show "k \<in> ?K \<longleftrightarrow> k < j" using d by auto
      qed
      then obtain s' where s': "twist_column j t = Some (Inr s')" "twist_inv D R (insert j ?K) s'"
        by blast
      from s'(2) have "?I (Suc j) s'" unfolding next_set .
      with s'(1) True show ?thesis by auto
    next
      case False
      have "?Kold \<union> {k. k < Suc j \<and> ?dims ! k = d} = ?K"
        using False by (auto simp: less_Suc_eq)
      then show ?thesis using False I by simp
    qed
  qed
  moreover have "?Kold \<union> {k. k < length D \<and> ?dims ! k = d} = {k. k < length D \<and> ?dims ! k \<in> insert d Ds}"
    by auto
  moreover have "length ?dims = length D" by (simp add: column_dims_def)
  ultimately show ?thesis by (simp add: twist_band_def)
qed

lemma twist_bands:
  assumes red: "reduced_upto D R (length D)" and bz: "boundary_zero D"
    and cs: "columns_sorted D" and rng: "entries_in_range D" and dc: "dimension_consistent D"
  shows "distinct ds \<Longrightarrow> set ds \<inter> Ds = {} \<Longrightarrow>
         twist_inv D R {k. k < length D \<and> column_dims D ! k \<in> Ds} s \<Longrightarrow>
         \<exists>s'. for_each (twist_band (column_dims D)) ds s = Some (Inr s')
           \<and> twist_inv D R {k. k < length D \<and> column_dims D ! k \<in> Ds \<union> set ds} s'"
proof (induction ds arbitrary: Ds s)
  case Nil
  then show ?case by simp
next
  case (Cons d ds)
  have d: "d \<notin> Ds" using Cons.prems(2) by auto
  from twist_band_step [OF red bz cs rng dc d Cons.prems(3)]
  obtain s1 where s1: "twist_band (column_dims D) d s = Some (Inr s1)"
    "twist_inv D R {k. k < length D \<and> column_dims D ! k \<in> insert d Ds} s1" by blast
  have "distinct ds" "set ds \<inter> insert d Ds = {}" using Cons.prems(1,2) by auto
  from Cons.IH [OF this s1(2)]
  obtain s2 where s2: "for_each (twist_band (column_dims D)) ds s1 = Some (Inr s2)"
    "twist_inv D R {k. k < length D \<and> column_dims D ! k \<in> insert d Ds \<union> set ds} s2" by blast
  have "insert d Ds \<union> set ds = Ds \<union> set (d # ds)" by auto
  with s2(2) have "twist_inv D R {k. k < length D \<and> column_dims D ! k \<in> Ds \<union> set (d # ds)} s2"
    by simp
  with s1(1) s2(1) show ?case by simp
qed

lemma column_dims_occur:
  assumes "k < length D"
  shows "column_dims D ! k \<in> set (rev (sort (remdups (column_dims D))))"
proof -
  have "k < length (column_dims D)" using assms by (simp add: column_dims_def)
  then have "column_dims D ! k \<in> set (column_dims D)" by (rule nth_mem)
  then show ?thesis by simp
qed

lemma twist_reduction_result:
  assumes red: "reduced_upto (representation M) R (length (representation M))"
    and bz: "boundary_zero (representation M)"
    and cs: "columns_sorted (representation M)" and rng: "entries_in_range (representation M)"
    and dc: "dimension_consistent (representation M)"
  shows "\<exists>pairs M'. twist_reduction M = Some (Inr (pairs, M'))
           \<and> set pairs = set (pairs_of R [0..<length (representation M)])
           \<and> representation M' = R"
proof -
  let ?D = "representation M"
  let ?ds = "rev (sort (remdups (column_dims ?D)))"
  have dims: "map (getDimension_of M) [0..<getNumColumns M] = column_dims ?D"
    by (simp add: column_dims_def getDimension_of_def getNumColumns_def rep_getNumColumns_def)
  have init: "twist_inv ?D R {k. k < length ?D \<and> column_dims ?D ! k \<in> {}} (M, Map.empty, {}, [])"
    by (simp add: twist_inv_def owners_def)
  have "\<exists>s'. for_each (twist_band (column_dims ?D)) ?ds (M, Map.empty, {}, []) = Some (Inr s')
          \<and> twist_inv ?D R {k. k < length ?D \<and> column_dims ?D ! k \<in> {} \<union> set ?ds} s'"
    using red bz cs rng dc _ _ init by (rule twist_bands) simp_all
  then obtain s' where s': "for_each (twist_band (column_dims ?D)) ?ds (M, Map.empty, {}, []) = Some (Inr s')"
    "twist_inv ?D R {k. k < length ?D \<and> column_dims ?D ! k \<in> {} \<union> set ?ds} s'" by blast
  have all: "{k. k < length ?D \<and> column_dims ?D ! k \<in> {} \<union> set ?ds} = {..<length ?D}"
    using column_dims_occur [of _ ?D] by auto
  obtain M' lut resolved pairs where t: "s' = (M', lut, resolved, pairs)" by (cases s')
  from s'(2) have fin: "twist_inv ?D R {..<length ?D} (M', lut, resolved, pairs)"
    unfolding all t .
  then have len: "length (representation M') = length ?D"
    and cols: "\<And>k. k < length ?D \<Longrightarrow> representation M' ! k = (if k \<in> resolved then [] else R ! k)"
    and res: "\<And>k. k \<in> resolved \<Longrightarrow> R ! k = []"
    and pairs: "set pairs = {(Max (set (R ! k)), k) | k. k < length ?D \<and> R ! k \<noteq> []}"
    by (simp_all add: twist_inv_def)
  have lenR: "length R = length ?D" using red by (simp add: reduced_upto_def)
  have "representation M' = R"
  proof (rule nth_equalityI)
    show "length (representation M') = length R" using len lenR by simp
  next
    fix k assume "k < length (representation M')"
    then have "k < length ?D" using len by simp
    then show "representation M' ! k = R ! k" using cols [of k] res [of k] by auto
  qed
  moreover have "set pairs = set (pairs_of R [0..<length ?D])"
    unfolding pairs by (auto simp: pairs_of_def)
  moreover have "twist_reduction M = Some (Inr (pairs, M'))"
    using s'(1) by (simp add: twist_reduction_def dims t)
  ultimately show ?thesis by blast
qed

lemma fold_symdiff_gsum:
  assumes "\<And>i. i \<in> set c \<Longrightarrow> sorted_wrt (<) (D ! i)" "distinct c" "sorted_wrt (<) acc"
  shows "sorted_wrt (<) (fold (\<lambda>i a. set_symmetric_difference a (D ! i)) c acc)
         \<and> set (fold (\<lambda>i a. set_symmetric_difference a (D ! i)) c acc)
             = sym_diff (set acc) (gsum (\<lambda>i. set (D ! i)) (set c))"
  using assms
proof (induction c arbitrary: acc)
  case Nil
  then show ?case by simp
next
  case (Cons i c)
  let ?acc = "set_symmetric_difference acc (D ! i)"
  have si: "sorted_wrt (<) (D ! i)" using Cons.prems(1) by simp
  have sa: "sorted_wrt (<) ?acc" using Cons.prems(3) si by (rule sorted_symdiff)
  have IH: "sorted_wrt (<) (fold (\<lambda>i a. set_symmetric_difference a (D ! i)) c ?acc)
         \<and> set (fold (\<lambda>i a. set_symmetric_difference a (D ! i)) c ?acc)
             = sym_diff (set ?acc) (gsum (\<lambda>i. set (D ! i)) (set c))"
    using Cons.prems(1,2) sa by (intro Cons.IH) simp_all
  have "set ?acc = sym_diff (set acc) (set (D ! i))"
    using Cons.prems(3) si by (rule set_symdiff)
  moreover have "gsum (\<lambda>i. set (D ! i)) (set (i # c))
                   = sym_diff (set (D ! i)) (gsum (\<lambda>i. set (D ! i)) (set c))"
    using Cons.prems(2) by (simp add: gsum_insert)
  ultimately have "sym_diff (set ?acc) (gsum (\<lambda>i. set (D ! i)) (set c))
                     = sym_diff (set acc) (gsum (\<lambda>i. set (D ! i)) (set (i # c)))"
    by (simp only: sym_diff_assoc)
  with IH show ?case by simp
qed

lemma valid_columns:
  assumes "complex_boundary_matrix M"
  shows "columns_sorted (representation M)" "entries_in_range (representation M)"
    "boundary_zero (representation M)" "dimension_consistent (representation M)"
proof -
  let ?D = "representation M"
  from assms have wf: "well_formed M"
    and each: "\<And>j. j < length ?D \<Longrightarrow> boundary_of_boundary M j = []"
    and dims: "\<And>j k. j < length ?D \<Longrightarrow> k < length ?D \<Longrightarrow>
        (\<forall>i\<in>set (?D ! j). i \<notin> set (?D ! k)) \<or> getDimension_of M j = getDimension_of M k"
    by (simp_all add: complex_boundary_matrix_def valid_boundary_matrix_def getNumColumns_def
        rep_getNumColumns_def getColumn_def rep_getColumn_def)
  have sorted: "sorted_wrt (<) (?D ! k)" if "k < length ?D" for k
    using well_formed_column [OF wf, of k] that
    by (simp add: getNumColumns_def rep_getNumColumns_def getColumn_def rep_getColumn_def)
  have range: "i < length ?D" if "k < length ?D" "i \<in> set (?D ! k)" for k i
    using well_formed_entries [OF wf, of k i] that
    by (simp add: getNumColumns_def rep_getNumColumns_def getColumn_def rep_getColumn_def)
  show "columns_sorted ?D" using sorted by (simp add: columns_sorted_def)
  show "entries_in_range ?D" using range by (auto simp: entries_in_range_def)
  show "boundary_zero ?D"
    unfolding boundary_zero_def
  proof (intro allI impI)
    fix k assume k: "k < length ?D"
    have "set (fold (\<lambda>i a. set_symmetric_difference a (?D ! i)) (?D ! k) [])
            = sym_diff (set []) (gsum (\<lambda>i. set (?D ! i)) (set (?D ! k)))"
      using fold_symdiff_gsum [of "?D ! k" ?D "[]"] sorted range [OF k] sorted [OF k]
      by (simp add: strict_sorted_iff)
    moreover have "fold (\<lambda>i a. set_symmetric_difference a (?D ! i)) (?D ! k) [] = []"
      using each [OF k] by (simp add: boundary_of_boundary_def getColumn_def rep_getColumn_def)
    ultimately show "gsum (\<lambda>i. set (?D ! i)) (set (?D ! k)) = {}" by simp
  qed
  show "dimension_consistent ?D"
    unfolding dimension_consistent_def
  proof (intro allI impI)
    fix a b assume a: "a < length ?D" and b: "b < length ?D"
      and meet: "set (?D ! a) \<inter> set (?D ! b) \<noteq> {}"
    from dims [OF a b] meet have "getDimension_of M a = getDimension_of M b" by blast
    then show "rep_getDimension_of ?D a = rep_getDimension_of ?D b"
      by (simp add: getDimension_of_def)
  qed
qed

text \<open>
  Claim C1 as the specification states it: for every valid boundary matrix, which is a
  matrix of the data model with every entry of column \<open>j\<close> below \<open>j\<close>, the two
  strategies give the same set of pairs. Two triangular matrices on which they differ:
  the dualised matrix of a path of two edges, where the boundary of every boundary is
  zero but the columns 2 and 4 share row 0 and have different dimensions, so that the
  twist pairs column 4 before the columns 2 and 3 that standard reduction adds to it;
  and the columns \<open>[]\<close>, \<open>[]\<close>, \<open>[0]\<close>, \<open>[1, 2]\<close>, where the dimensions are consistent
  but the boundary of column 3 has the boundary \<open>[0]\<close>, so that the twist clears column 2
  before its pair is found.
\<close>

theorem C1_standard_twist_counterexample:
  "representation (dualize (matrix_of [[], [], [], [0, 1], [0, 2]])) = [[], [], [0], [1], [0, 1]]
   \<and> valid_boundary_matrix (dualize (matrix_of [[], [], [], [0, 1], [0, 2]]))
   \<and> map_option (map_sum id fst) (standard_reduction (dualize (matrix_of [[], [], [], [0, 1], [0, 2]])))
       = Some (Inr [(0, 2), (1, 3)])
   \<and> map_option (map_sum id fst) (twist_reduction (dualize (matrix_of [[], [], [], [0, 1], [0, 2]])))
       = Some (Inr [(1, 4), (0, 2)])
   \<and> set ([(0, 2), (1, 3)] :: PersistencePair list) \<noteq> set [(1, 4), (0, 2)]
   \<and> valid_boundary_matrix (matrix_of [[], [], [0], [1, 2]])
   \<and> map_option (map_sum id fst) (standard_reduction (matrix_of [[], [], [0], [1, 2]]))
       = Some (Inr [(0, 2), (2, 3)])
   \<and> map_option (map_sum id fst) (twist_reduction (matrix_of [[], [], [0], [1, 2]]))
       = Some (Inr [(2, 3)])
   \<and> set ([(0, 2), (2, 3)] :: PersistencePair list) \<noteq> set [(2, 3)]"
  by code_simp

text \<open>
  Claim C1, amended. For every boundary matrix of a filtered complex, which is a valid
  boundary matrix in which the boundary of every boundary is zero and two columns that
  share a row index have the same dimension, standard reduction and twist reduction, each
  run on its own copy of the matrix, both return without a fault, and the set of
  (birth, death) index pairs of the one equals the set of pairs of the other. The reduced
  matrices have the same columns as well.
\<close>

theorem C1_standard_twist_same_pairs:
  assumes "complex_boundary_matrix M"
  shows "\<exists>ps Ms pt Mt. standard_reduction M = Some (Inr (ps, Ms))
           \<and> twist_reduction M = Some (Inr (pt, Mt))
           \<and> set ps = set pt \<and> representation Ms = representation Mt"
proof -
  let ?D = "representation M"
  note v = valid_columns [OF assms]
  from standard_reduction_result [OF v(1)] obtain Ms lut where
    std: "standard_reduction M = Some (Inr (pairs_of (representation Ms) [0..<length ?D], Ms))"
    and red: "reduced_upto ?D (representation Ms) (length ?D)"
    by blast
  from twist_reduction_result [OF red v(3) v(1) v(2) v(4)] obtain pt Mt where
    tw: "twist_reduction M = Some (Inr (pt, Mt))"
    "set pt = set (pairs_of (representation Ms) [0..<length ?D])"
    "representation Mt = representation Ms"
    by blast
  from std tw show ?thesis by simp
qed

theorem C1_standard_twist_witness:
  "complex_boundary_matrix triangle
   \<and> map_option (map_sum id fst) (standard_reduction triangle) = Some (Inr [(1, 3), (2, 4), (5, 6)])
   \<and> map_option (map_sum id fst) (twist_reduction triangle) = Some (Inr [(5, 6), (1, 3), (2, 4)])
   \<and> set ([(1, 3), (2, 4), (5, 6)] :: PersistencePair list) = set [(5, 6), (1, 3), (2, 4)]"
proof -
  have valid: "complex_boundary_matrix triangle"
    by code_simp
  have std: "map_option (map_sum id fst) (standard_reduction triangle) = Some (Inr [(1, 3), (2, 4), (5, 6)])"
    by code_simp
  have tw: "map_option (map_sum id fst) (twist_reduction triangle) = Some (Inr [(5, 6), (1, 3), (2, 4)])"
    by code_simp
  from C1_standard_twist_same_pairs [OF valid] obtain ps Ms pt Mt where
    "standard_reduction triangle = Some (Inr (ps, Ms))" "twist_reduction triangle = Some (Inr (pt, Mt))"
    "set ps = set pt"
    by blast
  with std tw have "set ([(1, 3), (2, 4), (5, 6)] :: PersistencePair list) = set [(5, 6), (1, 3), (2, 4)]"
    by simp
  with valid std tw show ?thesis by simp
qed

section \<open>Errors of the reader\<close>

lemma read_values_nonempty_lines: "read_values get_value inp \<noteq> [] \<Longrightarrow> 0 < count_lines inp"
  by (subst count_lines.simps, subst (asm) read_values.simps) (simp split: if_splits)

lemma read_stream_error_keeps_K:
  "fst (read_stream mk get_value rd inp K) \<noteq> None \<Longrightarrow> snd (snd (read_stream mk get_value rd inp K)) = K"
  by (simp add: read_stream_def Let_def split: if_splits prod.splits)

text \<open>
  Claim C7 as the specification states it: every malformed input, empty input included,
  makes the reader raise a format error before the complex is touched. On the empty
  stream the reader returns without any error, from the stream and from the file
  overload alike.
\<close>

theorem C7_reader_counterexample:
  "read_stream id extract_int new_reader [] [] = (None, new_reader, [])
   \<and> read_file id extract_int new_reader (Some []) [] = (None, new_reader, [])"
  by (simp add: read_file_def read_stream_def read_values.simps)

text \<open>
  The test for rows of varying length is \<^verbatim>\<open>values.size() % height != 0\<close>: two rows of
  three values and one value pass it.
\<close>

lemma reader_accepts_ragged_rows:
  "fst (read_stream id extract_int new_reader
     [CHR ''1'', CHR '' '', CHR ''2'', CHR '' '', CHR ''3'', CHR 0x0A, CHR ''4'', CHR 0x0A] []) = None"
  by code_simp

text \<open>
  Claim C7, amended. An input from which no value can be read is not an error: the reader
  returns normally and leaves the complex and its own height and width as they were.
  When the number of values read is not a multiple of the number of lines, the reader
  raises the format error with the complex untouched (its own height and width are
  already set). Whenever either overload raises an error, the complex of the caller is
  the one it passed in.
\<close>

theorem C7_reader_amended:
  "(read_values get_value inp = [] \<longrightarrow> read_stream mk get_value rd inp K = (None, rd, K))
   \<and> (read_values get_value inp \<noteq> [] \<and> length (read_values get_value inp) mod count_lines inp \<noteq> 0 \<longrightarrow>
        read_stream mk get_value rd inp K
          = (Some FormatError,
             rd\<lparr>reader_height := count_lines inp,
                reader_width := length (read_values get_value inp) div count_lines inp\<rparr>,
             K))
   \<and> (fst (read_file mk get_value rd inp_file K) \<noteq> None \<longrightarrow>
        snd (snd (read_file mk get_value rd inp_file K)) = K)"
proof (intro conjI impI)
  assume "read_values get_value inp = []"
  then show "read_stream mk get_value rd inp K = (None, rd, K)"
    by (simp add: read_stream_def)
next
  assume "read_values get_value inp \<noteq> [] \<and> length (read_values get_value inp) mod count_lines inp \<noteq> 0"
  then show "read_stream mk get_value rd inp K
          = (Some FormatError,
             rd\<lparr>reader_height := count_lines inp,
                reader_width := length (read_values get_value inp) div count_lines inp\<rparr>,
             K)"
    by (simp add: read_stream_def Let_def)
next
  assume "fst (read_file mk get_value rd inp_file K) \<noteq> None"
  then show "snd (snd (read_file mk get_value rd inp_file K)) = K"
    using read_stream_error_keeps_K [of mk get_value rd _ K]
    by (cases inp_file) (simp_all add: read_file_def)
qed

theorem C7_reader_witness:
  "read_values extract_int [CHR ''1'', CHR '' '', CHR ''2'', CHR 0x0A, CHR ''4'', CHR 0x0A] = [1, 2, 4]
   \<and> count_lines [CHR ''1'', CHR '' '', CHR ''2'', CHR 0x0A, CHR ''4'', CHR 0x0A] = 2
   \<and> read_stream id extract_int new_reader
        [CHR ''1'', CHR '' '', CHR ''2'', CHR 0x0A, CHR ''4'', CHR 0x0A] [Simplex [0] 5]
      = (Some FormatError, new_reader\<lparr>reader_height := 2, reader_width := 1\<rparr>, [Simplex [0] 5])
   \<and> read_file id extract_int new_reader None [Simplex [0] (5::int)]
      = (Some UnableToReadInputFile, new_reader, [Simplex [0] 5])"
  using C7_reader_amended [of extract_int
      "[CHR ''1'', CHR '' '', CHR ''2'', CHR 0x0A, CHR ''4'', CHR 0x0A]" id new_reader "[Simplex [0] 5]" None]
  by code_simp

end
